theory Spec2Isabelle
  imports Main
begin

section \<open>Strings as Python handles them\<close>

text \<open>
  Field values are Python \<open>str\<close> objects: sequences of Unicode code points.  A value is
  modelled as a \<open>string\<close>, whose characters are read as the code points U+0000 to U+00FF;
  values with a code point above U+00FF are outside the model.  \<open>str.upper\<close> takes two of
  these characters above U+00FF, so the uppercased form of a value is a list of code
  points (\<open>nat list\<close>).
\<close>

definition isspace :: "char \<Rightarrow> bool" where
  \<comment> \<open>The characters up to U+00FF that \<open>str.strip()\<close> removes (those for which
      \<open>str.isspace\<close> holds): TAB, LF, VT, FF, CR, FS, GS, RS, US, SPACE, NEL (U+0085) and
      NO-BREAK SPACE (U+00A0).\<close>
  "isspace c = (c \<in> {CHR 0x09, CHR 0x0A, CHR 0x0B, CHR 0x0C, CHR 0x0D,
                      CHR 0x1C, CHR 0x1D, CHR 0x1E, CHR 0x1F, CHR 0x20,
                      CHR 0x85, CHR 0xA0})"

definition strip :: "string \<Rightarrow> string" where
  "strip s = rev (dropWhile isspace (rev (dropWhile isspace s)))"

definition ascii_lowercase :: string where
  "ascii_lowercase = ''abcdefghijklmnopqrstuvwxyz''"

definition ascii_uppercase :: string where
  "ascii_uppercase = ''ABCDEFGHIJKLMNOPQRSTUVWXYZ''"

definition ascii_digits :: string where
  "ascii_digits = ''0123456789''"

definition code_points :: "string \<Rightarrow> nat list" where
  "code_points s = map of_char s"

definition upper_char :: "char \<Rightarrow> nat list" where
  \<comment> \<open>\<open>str.upper\<close> on one character up to U+00FF: \<open>a\<close>..\<open>z\<close> and U+00E0..U+00FE (but the
      division sign U+00F7) go 32 down; sharp s (U+00DF) becomes \<open>SS\<close>; the micro sign
      (U+00B5) becomes U+039C and y with diaeresis (U+00FF) becomes U+0178; every other
      character stays\<close>
  "upper_char c =
     (let n = of_char c in
      if (97 \<le> n \<and> n \<le> 122) \<or> (224 \<le> n \<and> n \<le> 254 \<and> n \<noteq> 247) then [n - 32]
      else if n = 223 then [83, 83]
      else if n = 181 then [924]
      else if n = 255 then [376]
      else [n])"

definition upper :: "string \<Rightarrow> nat list" where
  "upper s = concat (map upper_char s)"

fun startswith :: "'a list \<Rightarrow> 'a list \<Rightarrow> bool" where
  \<comment> \<open>\<open>s.startswith(p)\<close>\<close>
  "startswith s [] = True"
| "startswith [] (p # ps) = False"
| "startswith (c # cs) (p # ps) = (c = p \<and> startswith cs ps)"

definition endswith :: "'a list \<Rightarrow> 'a list \<Rightarrow> bool" where
  \<comment> \<open>\<open>s.endswith(p)\<close>\<close>
  "endswith s p = startswith (rev s) (rev p)"

fun contains :: "'a list \<Rightarrow> 'a list \<Rightarrow> bool" where
  \<comment> \<open>\<open>p in s\<close>: a scan for the first position where \<open>p\<close> starts\<close>
  "contains [] p = (p = [])"
| "contains (c # cs) p = (startswith (c # cs) p \<or> contains cs p)"

section \<open>The denylist validator\<close>

datatype exn = ValidationError string | StopValidation string

definition FORBIDDEN_SEQUENCES :: "string list" where
  "FORBIDDEN_SEQUENCES = [''--'', '';'', ''/*'', ''*/'']"

definition SQL_KEYWORDS :: "string list" where
  "SQL_KEYWORDS = [''SELECT'', ''INSERT'', ''UPDATE'', ''DELETE'', ''DROP'', ''ALTER'', ''UNION'']"

definition injection_message :: string where
  "injection_message = ''Input contains characters that look like an injection attempt.''"

definition or_empty :: "string option \<Rightarrow> string" where
  \<comment> \<open>\<open>field.data or ""\<close>\<close>
  "or_empty data = (case data of None \<Rightarrow> [] | Some d \<Rightarrow> d)"

definition keyword_hit :: "nat list \<Rightarrow> string \<Rightarrow> bool" where
  \<comment> \<open>the condition of the \<open>if\<close> inside the loop over \<open>SQL_KEYWORDS\<close>\<close>
  "keyword_hit upper_value keyword =
     (upper_value = code_points keyword
      \<or> startswith upper_value (code_points (keyword @ '' ''))
      \<or> endswith upper_value (code_points ('' '' @ keyword))
      \<or> contains upper_value (code_points ('' '' @ keyword @ '' '')))"

fun keyword_loop :: "nat list \<Rightarrow> string list \<Rightarrow> exn + unit" where
  \<comment> \<open>\<open>for keyword in SQL_KEYWORDS: if ...: raise ValidationError(...)\<close>\<close>
  "keyword_loop upper_value [] = Inr ()"
| "keyword_loop upper_value (keyword # rest) =
     (if keyword_hit upper_value keyword then Inl (ValidationError injection_message)
      else keyword_loop upper_value rest)"

definition reject_injection :: "string option \<Rightarrow> exn + unit" where
  "reject_injection data =
     (let v = strip (or_empty data) in
      if list_ex (\<lambda>seq. contains v seq) FORBIDDEN_SEQUENCES
      then Inl (ValidationError injection_message)
      else keyword_loop (upper v) SQL_KEYWORDS)"

subsection \<open>The denylist rule in the words of the specification\<close>

definition spec_trimmed :: "string \<Rightarrow> string \<Rightarrow> bool" where
  \<comment> \<open>\<open>t\<close> is \<open>v\<close> trimmed of leading and trailing whitespace: \<open>v\<close> is \<open>t\<close> between two
      runs of whitespace, and \<open>t\<close> neither starts nor ends with whitespace\<close>
  "spec_trimmed v t =
     (\<exists>l r. v = l @ t @ r \<and> list_all isspace l \<and> list_all isspace r
            \<and> (t = [] \<or> (\<not> isspace (hd t) \<and> \<not> isspace (last t))))"

definition spec_literal_rule :: "string \<Rightarrow> bool" where
  \<comment> \<open>the value contains one of the literal substrings anywhere\<close>
  "spec_literal_rule v =
     (\<exists>seq a b. seq \<in> {''--'', '';'', ''/*'', ''*/''} \<and> v = a @ seq @ b)"

definition spec_keyword_rule :: "nat list \<Rightarrow> bool" where
  \<comment> \<open>the uppercased form equals, starts with (keyword, space), ends with (space, keyword)
      or contains (space, keyword, space) one of the keywords\<close>
  "spec_keyword_rule u =
     (\<exists>kw. kw \<in> {''SELECT'', ''INSERT'', ''UPDATE'', ''DELETE'', ''DROP'', ''ALTER'', ''UNION''} \<and>
        (u = code_points kw
         \<or> (\<exists>b. u = code_points kw @ code_points '' '' @ b)
         \<or> (\<exists>a. u = a @ code_points '' '' @ code_points kw)
         \<or> (\<exists>a b. u = a @ code_points '' '' @ code_points kw @ code_points '' '' @ b)))"

definition spec_screen_rejects :: "string \<Rightarrow> bool" where
  \<comment> \<open>after trimming, the value has a literal substring, or its uppercased form a keyword\<close>
  "spec_screen_rejects v =
     (\<exists>t. spec_trimmed v t \<and> (spec_literal_rule t \<or> spec_keyword_rule (upper t)))"

definition token_occurrence :: "nat list \<Rightarrow> string \<Rightarrow> bool" where
  \<comment> \<open>\<open>kw\<close> occurs in \<open>u\<close> as a token: bounded on the left by the start of \<open>u\<close> or a single
      space, and on the right by the end of \<open>u\<close> or a single space\<close>
  "token_occurrence u kw =
     (\<exists>a b. u = a @ code_points kw @ b
            \<and> (a = [] \<or> last a = of_char (CHR '' ''))
            \<and> (b = [] \<or> hd b = of_char (CHR '' '')))"

section \<open>Form validation (WTForms)\<close>

text \<open>
  A validator is called with the field and either returns, raises \<open>ValidationError\<close> or
  raises \<open>StopValidation\<close>.  Only \<open>field.data\<close> is read, so a validator is a function of
  the data; \<open>None\<close> is a field that received no value.
\<close>

type_synonym validator = "string option \<Rightarrow> exn + unit"

definition required_message :: string where
  \<comment> \<open>the message of \<open>DataRequired()\<close> when none is given\<close>
  "required_message = ''This field is required.''"

definition length_message :: string where
  \<comment> \<open>stands for the message \<open>Length\<close> builds from its bounds; only its presence matters\<close>
  "length_message = ''Field length is out of range.''"

definition DataRequired :: "string \<Rightarrow> validator" where
  \<comment> \<open>passes when \<open>field.data\<close> is truthy and \<open>field.data.strip()\<close> is truthy\<close>
  "DataRequired message data =
     (case data of
        None \<Rightarrow> Inl (StopValidation message)
      | Some d \<Rightarrow> if d \<noteq> [] \<and> strip d \<noteq> [] then Inr () else Inl (StopValidation message))"

definition Length :: "int \<Rightarrow> int \<Rightarrow> validator" where
  \<comment> \<open>\<open>Length(min, max)\<close>; an absent bound is \<open>-1\<close>\<close>
  "Length lo hi data =
     (let n = (case data of None \<Rightarrow> 0 | Some d \<Rightarrow> int (length d)) in
      if lo \<le> n \<and> (hi = - 1 \<or> n \<le> hi) then Inr () else Inl (ValidationError length_message))"

definition Regexp :: "(string \<Rightarrow> bool) \<Rightarrow> string \<Rightarrow> validator" where
  \<comment> \<open>\<open>regex.match(field.data or "")\<close>; the compiled pattern is a predicate on strings\<close>
  "Regexp re_match message data =
     (if re_match (or_empty data) then Inr () else Inl (ValidationError message))"

definition Email :: "(string \<Rightarrow> bool) \<Rightarrow> string \<Rightarrow> validator" where
  \<comment> \<open>the address syntax check is the \<open>email_validator\<close> package's, a parameter here\<close>
  "Email valid_address message data =
     (case data of
        None \<Rightarrow> Inl (ValidationError message)
      | Some d \<Rightarrow> if valid_address d then Inr () else Inl (ValidationError message))"

definition match_plus_dollar :: "(char \<Rightarrow> bool) \<Rightarrow> string \<Rightarrow> bool" where
  \<comment> \<open>\<open>re.match\<close> of a pattern \<open>^[...]+$\<close>: in Python \<open>$\<close> matches at the end of the string
      and also just before a newline that ends the string\<close>
  "match_plus_dollar cls s =
     (let body = (if s \<noteq> [] \<and> last s = CHR 0x0A then butlast s else s)
      in body \<noteq> [] \<and> list_all cls body)"

definition name_char :: "char \<Rightarrow> bool" where
  \<comment> \<open>the class \<open>[A-Za-z' -]\<close>\<close>
  "name_char c = (c \<in> set ascii_uppercase \<or> c \<in> set ascii_lowercase
                  \<or> c = CHR 0x27 \<or> c = CHR '' '' \<or> c = CHR ''-'')"

definition username_char :: "char \<Rightarrow> bool" where
  \<comment> \<open>the class \<open>[A-Za-z0-9_.@-]\<close>\<close>
  "username_char c = (c \<in> set ascii_uppercase \<or> c \<in> set ascii_lowercase \<or> c \<in> set ascii_digits
                      \<or> c = CHR ''_'' \<or> c = CHR ''.'' \<or> c = CHR ''@'' \<or> c = CHR ''-'')"

fun run_validation_chain :: "validator list \<Rightarrow> string option \<Rightarrow> string list" where
  \<comment> \<open>the errors of a field: \<open>ValidationError\<close> is recorded and the chain goes on,
      \<open>StopValidation\<close> is recorded (when it has a message) and ends the chain\<close>
  "run_validation_chain [] data = []"
| "run_validation_chain (v # vs) data =
     (case v data of
        Inr _ \<Rightarrow> run_validation_chain vs data
      | Inl (ValidationError m) \<Rightarrow> m # run_validation_chain vs data
      | Inl (StopValidation m) \<Rightarrow> (if m \<noteq> [] then [m] else []))"

definition field_validate :: "validator list \<Rightarrow> string option \<Rightarrow> bool" where
  \<comment> \<open>\<open>Field.validate\<close>: true when no error was recorded\<close>
  "field_validate validators data = (run_validation_chain validators data = [])"

definition name_structural_validators :: "string \<Rightarrow> validator list" where
  \<comment> \<open>the structural validators of \<open>ContactForm.fname\<close> and \<open>ContactForm.lname\<close>, which differ
      in the message of \<open>DataRequired\<close> only\<close>
  "name_structural_validators required =
     [DataRequired required,
      Length (- 1) 100,
      Regexp (match_plus_dollar name_char) ''Only letters, spaces, apostrophes, and hyphens allowed.'']"

definition name_validators :: "string \<Rightarrow> validator list" where
  \<comment> \<open>the whole list: the structural validators, then \<open>reject_injection\<close>\<close>
  "name_validators required = name_structural_validators required @ [reject_injection]"

definition fname_validators :: "validator list" where
  "fname_validators = name_validators ''First name is required.''"

definition lname_validators :: "validator list" where
  "lname_validators = name_validators ''Last name is required.''"

definition email_validators :: "(string \<Rightarrow> bool) \<Rightarrow> validator list" where
  "email_validators valid_address =
     [DataRequired ''Email is required.'',
      Email valid_address ''Please provide a valid email.'',
      Length (- 1) 200,
      reject_injection]"

definition username_validators :: "validator list" where
  "username_validators =
     [DataRequired required_message,
      Length 3 80,
      Regexp (match_plus_dollar username_char)
        ''Usernames may contain letters, numbers, @, dashes, underscores, and dots.'']"

definition password_validators :: "validator list" where
  "password_validators = [DataRequired required_message, Length 8 128]"

section \<open>The data model\<close>

text \<open>
  A table is the list of its rows in insertion order, and a commit returns the new
  tables.  \<open>id'\<close> is the column \<open>id\<close> of \<open>User\<close>.
\<close>

record FirstApp =
  sno :: int
  fname :: string
  lname :: string
  email :: string

record User =
  id' :: int
  username :: string
  password_hash :: string
  created_at :: nat

text \<open>
  What \<open>app.py\<close> takes from outside: the bcrypt primitive (with the salt it draws made an
  argument), the address syntax check of the \<open>Email\<close> validator, and the two settings read
  from the process environment.
\<close>

record env =
  generate_password_hash :: "string \<Rightarrow> string \<Rightarrow> string"
  check_password_hash :: "string \<Rightarrow> string \<Rightarrow> bool"
  validate_email :: "string \<Rightarrow> bool"
  DEFAULT_ADMIN_USERNAME :: string
  DEFAULT_ADMIN_PASSWORD :: string

record app =
  users :: "User list"
  first_app :: "FirstApp list"
  admin_seeded :: bool

definition initial_app :: app where
  \<comment> \<open>after \<open>db.create_all()\<close> on a new database\<close>
  "initial_app = \<lparr>users = [], first_app = [], admin_seeded = False\<rparr>"

definition next_rowid :: "int list \<Rightarrow> int" where
  \<comment> \<open>the key SQLite gives a new row of an \<open>INTEGER PRIMARY KEY\<close> table\<close>
  "next_rowid keys = (case keys of [] \<Rightarrow> 1 | k # ks \<Rightarrow> fold max ks k + 1)"

definition set_password :: "env \<Rightarrow> string \<Rightarrow> string \<Rightarrow> User \<Rightarrow> User" where
  "set_password e salt password u = u\<lparr>password_hash := generate_password_hash e salt password\<rparr>"

definition check_password :: "env \<Rightarrow> User \<Rightarrow> string \<Rightarrow> bool" where
  "check_password e u password = check_password_hash e (password_hash u) password"

definition ensure_seed_admin :: "env \<Rightarrow> string \<Rightarrow> nat \<Rightarrow> User list \<Rightarrow> User list" where
  \<comment> \<open>\<open>salt\<close> is the salt bcrypt would draw and \<open>now\<close> the clock, both read only when a
      row is written\<close>
  "ensure_seed_admin e salt now us =
     (case find (\<lambda>u. username u = DEFAULT_ADMIN_USERNAME e) us of
        Some user \<Rightarrow>
          if check_password e user (DEFAULT_ADMIN_PASSWORD e) then us
          else map (\<lambda>u. if id' u = id' user
                         then set_password e salt (DEFAULT_ADMIN_PASSWORD e) u else u) us
      | None \<Rightarrow>
          us @ [set_password e salt (DEFAULT_ADMIN_PASSWORD e)
                  \<lparr>id' = next_rowid (map id' us), username = DEFAULT_ADMIN_USERNAME e,
                   password_hash = [], created_at = now\<rparr>])"

definition bootstrap_seed_admin :: "env \<Rightarrow> string \<Rightarrow> nat \<Rightarrow> app \<Rightarrow> app" where
  "bootstrap_seed_admin e salt now a =
     (if admin_seeded a then a
      else a\<lparr>users := ensure_seed_admin e salt now (users a), admin_seeded := True\<rparr>)"

section \<open>Sessions, requests and responses\<close>

datatype sval = IntV int | BoolV bool | StrV string | FlashesV "(string \<times> string) list"

type_synonym session = "string \<rightharpoonup> sval"

definition truthy :: "sval option \<Rightarrow> bool" where
  \<comment> \<open>the truth value of \<open>session.get(key)\<close>\<close>
  "truthy v = (case v of None \<Rightarrow> False | Some (IntV n) \<Rightarrow> n \<noteq> 0 | Some (BoolV b) \<Rightarrow> b
               | Some (StrV s) \<Rightarrow> s \<noteq> [] | Some (FlashesV fs) \<Rightarrow> fs \<noteq> [])"

definition flash :: "string \<Rightarrow> string \<Rightarrow> session \<Rightarrow> session" where
  \<comment> \<open>Flask keeps the flashed messages in the session, under \<open>_flashes\<close>\<close>
  "flash message category sess =
     (let flashes = (case sess ''_flashes'' of Some (FlashesV fs) \<Rightarrow> fs | _ \<Rightarrow> [])
      in sess(''_flashes'' \<mapsto> FlashesV (flashes @ [(category, message)])))"

definition set_permanent :: "bool \<Rightarrow> session \<Rightarrow> session" where
  \<comment> \<open>\<open>session.permanent = b\<close>, which Flask stores under \<open>_permanent\<close>\<close>
  "set_permanent b sess = sess(''_permanent'' \<mapsto> BoolV b)"

definition permanent :: "session \<Rightarrow> bool" where
  "permanent sess = (case sess ''_permanent'' of Some (BoolV b) \<Rightarrow> b | _ \<Rightarrow> False)"

definition PERMANENT_SESSION_LIFETIME :: nat where
  \<comment> \<open>\<open>timedelta(minutes=30)\<close>, in seconds\<close>
  "PERMANENT_SESSION_LIFETIME = 30 * 60"

definition get_expiration_time :: "nat \<Rightarrow> session \<Rightarrow> nat option" where
  \<comment> \<open>when the session cookie written at time \<open>now\<close> expires; \<open>None\<close> is a browser-session
      cookie\<close>
  "get_expiration_time now sess =
     (if permanent sess then Some (now + PERMANENT_SESSION_LIFETIME) else None)"

datatype http_method = GET | POST

datatype route = login_ep | logout_ep | index_ep | delete_ep int | update_ep int

record request =
  meth :: http_method
  path :: string
  endpoint :: route
  args :: "string \<rightharpoonup> string"
  form :: "string \<rightharpoonup> string"

datatype target =
  url_for_index
  | url_for_login "string option"
  | location string

datatype response =
  redirect target
  | render_template string "FirstApp list"
  | not_found
  | method_not_allowed
  | server_error

text \<open>
  \<open>not_found\<close> and \<open>server_error\<close> are the pages of the 404 and 500 handlers; an exception
  that no view catches is answered by the 500 handler, which rolls the transaction back.
\<close>

type_synonym view = "app \<Rightarrow> session \<Rightarrow> request \<Rightarrow> app \<times> session \<times> response"

definition is_submitted :: "request \<Rightarrow> bool" where
  "is_submitted req = (meth req = POST)"

definition field_data :: "request \<Rightarrow> string \<Rightarrow> string option \<Rightarrow> string option" where
  \<comment> \<open>the data of a string field after \<open>process\<close>: the submitted value when the request is
      a submission that has one, else the value taken from \<open>obj\<close> (\<open>None\<close> without \<open>obj\<close>)\<close>
  "field_data req name obj_value =
     (if is_submitted req
      then (case form req name of Some v \<Rightarrow> Some v | None \<Rightarrow> obj_value)
      else obj_value)"

record ContactForm =
  fname_data :: "string option"
  lname_data :: "string option"
  email_data :: "string option"

record LoginForm =
  username_data :: "string option"
  password_data :: "string option"

definition new_ContactForm :: "request \<Rightarrow> FirstApp option \<Rightarrow> ContactForm" where
  \<comment> \<open>\<open>ContactForm()\<close> and \<open>ContactForm(obj=rec)\<close>\<close>
  "new_ContactForm req obj =
     \<lparr>fname_data = field_data req ''fname'' (map_option fname obj),
      lname_data = field_data req ''lname'' (map_option lname obj),
      email_data = field_data req ''email'' (map_option email obj)\<rparr>"

definition new_LoginForm :: "request \<Rightarrow> LoginForm" where
  "new_LoginForm req =
     \<lparr>username_data = field_data req ''username'' None,
      password_data = field_data req ''password'' None\<rparr>"

definition validate_ContactForm :: "env \<Rightarrow> ContactForm \<Rightarrow> bool" where
  \<comment> \<open>\<open>Form.validate\<close> validates every field and succeeds when all did\<close>
  "validate_ContactForm e f =
     (field_validate fname_validators (fname_data f)
      \<and> field_validate lname_validators (lname_data f)
      \<and> field_validate (email_validators (validate_email e)) (email_data f))"

definition validate_LoginForm :: "LoginForm \<Rightarrow> bool" where
  "validate_LoginForm f =
     (field_validate username_validators (username_data f)
      \<and> field_validate password_validators (password_data f))"

section \<open>The views\<close>

text \<open>
  A view reads and writes the database, the caller's session and returns a response.
  The requests modelled are those that passed \<open>CSRFProtect\<close>, which answers a submission
  without a valid token before any view runs.
\<close>

definition login_required :: "view \<Rightarrow> view" where
  "login_required view_func a sess req =
     (if \<not> truthy (sess ''user_id'')
      then (a, flash ''Please log in to continue.'' ''warning'' sess,
            redirect (url_for_login (Some (path req))))
      else view_func a sess req)"

definition login :: "env \<Rightarrow> view" where
  "login e a sess req =
     (let f = new_LoginForm req in
      if is_submitted req \<and> validate_LoginForm f then
        (case (username_data f, password_data f) of
           (Some name, Some password) \<Rightarrow>
             (case find (\<lambda>u. username u = strip name) (users a) of
                Some user \<Rightarrow>
                  if check_password e user password then
                    (let s1 = Map.empty;
                         s2 = s1(''user_id'' \<mapsto> IntV (id' user));
                         s3 = set_permanent True s2;
                         s4 = flash ''Successfully logged in.'' ''success'' s3;
                         next_location = args req ''next''
                     in (a, s4,
                         redirect (case next_location of
                                     Some n \<Rightarrow> if n \<noteq> [] then location n else url_for_index
                                   | None \<Rightarrow> url_for_index)))
                  else (a, flash ''Invalid username or password.'' ''danger'' sess,
                        render_template ''login.html'' [])
              | None \<Rightarrow> (a, flash ''Invalid username or password.'' ''danger'' sess,
                        render_template ''login.html'' []))
         | _ \<Rightarrow> (a, sess, server_error))
      else if meth req = POST then
        (a, flash ''Please correct the highlighted errors.'' ''danger'' sess,
         render_template ''login.html'' [])
      else (a, sess, render_template ''login.html'' []))"

definition logout_view :: view where
  \<comment> \<open>the body of \<open>logout\<close>\<close>
  "logout_view a sess req =
     (a, flash ''You have been logged out.'' ''info'' Map.empty, redirect (url_for_login None))"

definition logout :: view where
  "logout = login_required logout_view"

definition index_view :: "env \<Rightarrow> view" where
  \<comment> \<open>the body of \<open>index\<close>\<close>
  "index_view e a sess req =
     (let f = new_ContactForm req None in
      if is_submitted req \<and> validate_ContactForm e f then
        (case (fname_data f, lname_data f, email_data f) of
           (Some fn, Some ln, Some em) \<Rightarrow>
             (let new_record = \<lparr>sno = next_rowid (map sno (first_app a)),
                                fname = strip fn, lname = strip ln, email = strip em\<rparr>
              in (a\<lparr>first_app := first_app a @ [new_record]\<rparr>,
                  flash ''Record added successfully.'' ''success'' sess,
                  redirect url_for_index))
         | _ \<Rightarrow> (a, sess, server_error))
      else if meth req = POST then
        (a, flash ''Please correct the highlighted errors.'' ''danger'' sess,
         render_template ''index.html'' (sort_key sno (first_app a)))
      else (a, sess, render_template ''index.html'' (sort_key sno (first_app a))))"

definition index :: "env \<Rightarrow> view" where
  "index e = login_required (index_view e)"

datatype lookup_error = NotFound | OverflowError

definition in_int64 :: "int \<Rightarrow> bool" where
  \<comment> \<open>the values of an SQLite \<open>INTEGER\<close>\<close>
  "in_int64 n = (- (2 ^ 63) \<le> n \<and> n < 2 ^ 63)"

definition get_or_404 :: "FirstApp list \<Rightarrow> int \<Rightarrow> lookup_error + FirstApp" where
  \<comment> \<open>the row with this primary key.  The key is bound as a parameter of the query, and
      the SQLite driver raises \<open>OverflowError\<close> for a Python integer that is no SQLite
      \<open>INTEGER\<close>; with no such row the lookup aborts with 404 (\<open>NotFound\<close>)\<close>
  "get_or_404 rows n =
     (if \<not> in_int64 n then Inl OverflowError
      else (case find (\<lambda>r. sno r = n) rows of None \<Rightarrow> Inl NotFound | Some r \<Rightarrow> Inr r))"

definition delete_view :: "int \<Rightarrow> view" where
  \<comment> \<open>the body of \<open>delete\<close>\<close>
  "delete_view n a sess req =
     (case get_or_404 (first_app a) n of
        Inl NotFound \<Rightarrow> (a, sess, not_found)
      | Inl OverflowError \<Rightarrow> (a, sess, server_error)
      | Inr rec \<Rightarrow>
          (a\<lparr>first_app := filter (\<lambda>r. sno r \<noteq> sno rec) (first_app a)\<rparr>,
           flash ''Record deleted.'' ''info'' sess,
           redirect url_for_index))"

definition delete :: "int \<Rightarrow> view" where
  "delete n = login_required (delete_view n)"

definition update_view :: "env \<Rightarrow> int \<Rightarrow> view" where
  \<comment> \<open>the body of \<open>update\<close>\<close>
  "update_view e n a sess req =
     (case get_or_404 (first_app a) n of
        Inl NotFound \<Rightarrow> (a, sess, not_found)
      | Inl OverflowError \<Rightarrow> (a, sess, server_error)
      | Inr rec \<Rightarrow>
          (let f = new_ContactForm req (Some rec) in
           if is_submitted req \<and> validate_ContactForm e f then
             (case (fname_data f, lname_data f, email_data f) of
                (Some fn, Some ln, Some em) \<Rightarrow>
                  (a\<lparr>first_app :=
                       map (\<lambda>r. if sno r = sno rec
                                 then r\<lparr>fname := strip fn, lname := strip ln, email := strip em\<rparr>
                                 else r) (first_app a)\<rparr>,
                   flash ''Record updated successfully.'' ''success'' sess,
                   redirect url_for_index)
              | _ \<Rightarrow> (a, sess, server_error))
           else if meth req = POST then
             (a, flash ''Please correct the highlighted errors.'' ''danger'' sess,
              render_template ''update.html'' [rec])
           else (a, sess, render_template ''update.html'' [rec])))"

definition update :: "env \<Rightarrow> int \<Rightarrow> view" where
  "update e n = login_required (update_view e n)"

definition dispatch_request :: "env \<Rightarrow> view" where
  \<comment> \<open>the route table: \<open>/logout\<close> takes GET, \<open>/delete/<int:sno>\<close> takes POST, the others both\<close>
  "dispatch_request e a sess req =
     (case endpoint req of
        login_ep \<Rightarrow> login e a sess req
      | logout_ep \<Rightarrow> if meth req = GET then logout a sess req else (a, sess, method_not_allowed)
      | index_ep \<Rightarrow> index e a sess req
      | delete_ep n \<Rightarrow> if meth req = POST then delete n a sess req else (a, sess, method_not_allowed)
      | update_ep n \<Rightarrow> update e n a sess req)"

definition handle_request :: "env \<Rightarrow> string \<Rightarrow> nat \<Rightarrow> view" where
  \<comment> \<open>one request: the \<open>before_request\<close> hook, then the view\<close>
  "handle_request e salt now a sess req =
     dispatch_request e (bootstrap_seed_admin e salt now a) sess req"

record event =
  ev_salt :: string
  ev_now :: nat
  ev_session :: session
  ev_request :: request

fun run :: "env \<Rightarrow> event list \<Rightarrow> app \<Rightarrow> app" where
  \<comment> \<open>the database after a sequence of requests, each from a caller with any session\<close>
  "run e [] a = a"
| "run e (ev # evs) a =
     run e evs (fst (handle_request e (ev_salt ev) (ev_now ev) a (ev_session ev) (ev_request ev)))"

section \<open>Predicates the properties are stated with\<close>

definition glued_keywords_only :: "string \<Rightarrow> bool" where
  \<comment> \<open>every occurrence of a keyword in the trimmed, uppercased value has a character other
      than a space immediately before it or immediately after it\<close>
  "glued_keywords_only v =
     (\<forall>kw a b. kw \<in> set SQL_KEYWORDS \<and> upper (strip v) = a @ code_points kw @ b \<longrightarrow>
        (a \<noteq> [] \<and> last a \<noteq> of_char (CHR '' '')) \<or> (b \<noteq> [] \<and> hd b \<noteq> of_char (CHR '' '')))"

definition hasher_verifies :: "env \<Rightarrow> bool" where
  \<comment> \<open>the contract of the password hasher, \<open>verify(p, hash(p))\<close>, at the configured admin
      password and for every salt\<close>
  "hasher_verifies e =
     (\<forall>salt. check_password_hash e (generate_password_hash e salt (DEFAULT_ADMIN_PASSWORD e))
               (DEFAULT_ADMIN_PASSWORD e))"

definition users_table_ok :: "User list \<Rightarrow> bool" where
  \<comment> \<open>the constraints of the \<open>users\<close> table: \<open>id\<close> is the primary key, \<open>username\<close> is unique\<close>
  "users_table_ok us = (distinct (map id' us) \<and> distinct (map username us))"

definition admins :: "env \<Rightarrow> User list \<Rightarrow> User list" where
  \<comment> \<open>the accounts with the configured admin username\<close>
  "admins e us = filter (\<lambda>u. username u = DEFAULT_ADMIN_USERNAME e) us"

definition screened :: "env \<Rightarrow> FirstApp \<Rightarrow> bool" where
  \<comment> \<open>the three fields of a stored record pass the validators of their form fields\<close>
  "screened e r =
     (field_validate fname_validators (Some (fname r))
      \<and> field_validate lname_validators (Some (lname r))
      \<and> field_validate (email_validators (validate_email e)) (Some (email r)))"

definition trim_stable :: "env \<Rightarrow> bool" where
  \<comment> \<open>the address check accepts the trimmed form of every address it accepts (as a check
      does that accepts no address with whitespace around it)\<close>
  "trim_stable e = (\<forall>s. validate_email e s \<longrightarrow> validate_email e (strip s))"

definition fresh_session :: "int \<Rightarrow> session" where
  \<comment> \<open>the session that holds what a login writes and nothing else\<close>
  "fresh_session uid =
     [''user_id'' \<mapsto> IntV uid, ''_permanent'' \<mapsto> BoolV True,
      ''_flashes'' \<mapsto> FlashesV [(''success'', ''Successfully logged in.'')]]"

definition to_login :: view where
  \<comment> \<open>the answer of the guard: nothing changes but the flashed warning, and the caller is
      sent to the login page with the requested path as \<open>next\<close>\<close>
  "to_login a sess req =
     (a, flash ''Please log in to continue.'' ''warning'' sess,
      redirect (url_for_login (Some (path req))))"

section \<open>Concrete inputs\<close>

text \<open>
  Inputs at which the theorems below are instantiated.  \<open>toy_env\<close> stands in for bcrypt with
  a four-character salt in front of the password, and for the address check with "has an
  \<open>@\<close> and no surrounding whitespace"; the two settings have the defaults of \<open>app.py\<close>.
\<close>

definition toy_env :: env where
  "toy_env =
     \<lparr>generate_password_hash = (\<lambda>salt password. take 4 (salt @ ''0000'') @ password),
      check_password_hash = (\<lambda>pw_hash password. drop 4 pw_hash = password),
      validate_email = (\<lambda>s. strip s = s \<and> CHR ''@'' \<in> set s),
      DEFAULT_ADMIN_USERNAME = ''i221693@nu.edu.pk'',
      DEFAULT_ADMIN_PASSWORD = ''123456@a''\<rparr>"

definition jane :: FirstApp where
  "jane = \<lparr>sno = 1, fname = ''Jane'', lname = ''Doe'', email = ''jane@example.com''\<rparr>"

definition omar :: FirstApp where
  "omar = \<lparr>sno = 2, fname = ''Omar'', lname = ''Said'', email = ''omar@example.com''\<rparr>"

definition admin :: User where
  "admin = \<lparr>id' = 1, username = ''i221693@nu.edu.pk'', password_hash = ''salt123456@a'',
            created_at = 0\<rparr>"

definition guest :: User where
  "guest = \<lparr>id' = 2, username = ''guest'', password_hash = ''saltpw'', created_at = 5\<rparr>"

definition two_rows :: app where
  "two_rows = \<lparr>users = [admin, guest], first_app = [jane, omar], admin_seeded = True\<rparr>"

definition logged_in :: session where
  "logged_in = [''user_id'' \<mapsto> IntV 1, ''_permanent'' \<mapsto> BoolV True]"

definition login_as :: "string \<Rightarrow> string \<Rightarrow> string option \<Rightarrow> request" where
  \<comment> \<open>a submission of the login form, on the login page reached with this \<open>next\<close>\<close>
  "login_as name password nxt =
     \<lparr>meth = POST, path = ''/login'', endpoint = login_ep,
      args = (case nxt of None \<Rightarrow> Map.empty | Some p \<Rightarrow> [''next'' \<mapsto> p]),
      form = [''username'' \<mapsto> name, ''password'' \<mapsto> password]\<rparr>"

definition post_to :: "route \<Rightarrow> string \<Rightarrow> (string \<times> string) list \<Rightarrow> request" where
  \<comment> \<open>a submission of the given form fields\<close>
  "post_to r p kvs = \<lparr>meth = POST, path = p, endpoint = r, args = Map.empty, form = map_of kvs\<rparr>"

definition create_jane :: event where
  \<comment> \<open>a logged-in caller submits the contact form on the index page\<close>
  "create_jane =
     \<lparr>ev_salt = ''abcd'', ev_now = 7, ev_session = logged_in,
      ev_request = post_to index_ep ''/''
        [(''fname'', '' Jane ''), (''lname'', ''Doe''), (''email'', ''jane@example.com'')]\<rparr>"

section \<open>Facts about the string functions\<close>

lemma startswith_iff: "startswith s p \<longleftrightarrow> (\<exists>t. s = p @ t)"
  by (induction s p rule: startswith.induct) auto

lemma endswith_iff: "endswith s p \<longleftrightarrow> (\<exists>t. s = t @ p)"
proof
  assume "endswith s p"
  then obtain t where "rev s = rev p @ t"
    by (auto simp: endswith_def startswith_iff)
  then have "s = rev t @ p"
    by (metis rev_append rev_rev_ident)
  then show "\<exists>t. s = t @ p" by blast
next
  assume "\<exists>t. s = t @ p"
  then show "endswith s p"
    by (auto simp: endswith_def startswith_iff)
qed

lemma contains_iff: "contains s p \<longleftrightarrow> (\<exists>a b. s = a @ p @ b)"
proof (induction s)
  case Nil
  then show ?case by auto
next
  case (Cons c cs)
  show ?case
  proof
    assume "contains (c # cs) p"
    then consider "startswith (c # cs) p" | "contains cs p" by auto
    then show "\<exists>a b. c # cs = a @ p @ b"
    proof cases
      case 1
      then obtain t where "c # cs = p @ t" by (auto simp: startswith_iff)
      then have "c # cs = [] @ p @ t" by simp
      then show ?thesis by blast
    next
      case 2
      then obtain a b where "cs = a @ p @ b" using Cons.IH by blast
      then have "c # cs = (c # a) @ p @ b" by simp
      then show ?thesis by blast
    qed
  next
    assume "\<exists>a b. c # cs = a @ p @ b"
    then obtain a b where ab: "c # cs = a @ p @ b" by blast
    show "contains (c # cs) p"
    proof (cases a)
      case Nil
      with ab have "startswith (c # cs) p" by (auto simp: startswith_iff)
      then show ?thesis by simp
    next
      case (Cons x a')
      with ab have "cs = a' @ p @ b" by simp
      then have "contains cs p" using Cons.IH by blast
      then show ?thesis by simp
    qed
  qed
qed

section \<open>Facts about trimming\<close>

lemma set_strip: "set (strip s) \<subseteq> set s"
  unfolding strip_def by (auto dest!: set_dropWhileD)

lemma list_all_strip: "list_all P s \<Longrightarrow> list_all P (strip s)"
  using set_strip [of s] by (auto simp: list_all_iff)

lemma dropWhile_all: "list_all P s \<Longrightarrow> dropWhile P s = []"
  by (induction s) auto

lemma strip_snoc_space: "isspace c \<Longrightarrow> strip (s @ [c]) = strip s"
proof -
  assume c: "isspace c"
  show ?thesis
  proof (cases "list_all isspace s")
    case True
    then have "list_all isspace (s @ [c])" using c by simp
    then have d: "dropWhile isspace (s @ [c]) = []" "dropWhile isspace s = []"
      using True by (simp_all only: dropWhile_all)
    show ?thesis unfolding strip_def d by (rule refl)
  next
    case False
    then have "dropWhile isspace (s @ [c]) = dropWhile isspace s @ [c]"
      by (auto simp: list_all_iff dropWhile_append1)
    then show ?thesis using c by (simp add: strip_def)
  qed
qed

lemma dropWhile_keep: "xs = [] \<or> \<not> P (hd xs) \<Longrightarrow> dropWhile P xs = xs"
  by (cases xs) auto

lemma last_dropWhile: "dropWhile P ys \<noteq> [] \<Longrightarrow> last (dropWhile P ys) = last ys"
  by (induction ys) (auto split: if_splits)

lemma strip_ends:
  assumes "strip s \<noteq> []"
  shows "\<not> isspace (hd (strip s))" and "\<not> isspace (last (strip s))"
proof -
  let ?d = "dropWhile isspace s"
  let ?x = "dropWhile isspace (rev ?d)"
  have x: "?x \<noteq> []" using assms by (simp add: strip_def)
  then have d: "?d \<noteq> []" by (metis dropWhile.simps(1) rev.simps(1))
  have "\<not> isspace (hd ?x)" using x by (rule hd_dropWhile)
  then show "\<not> isspace (last (strip s))"
    using x by (simp add: strip_def last_rev)
  have "last ?x = last (rev ?d)" using x by (rule last_dropWhile)
  also have "\<dots> = hd ?d" using d by (simp add: last_rev)
  finally have "hd (strip s) = hd ?d" using x by (simp add: strip_def hd_rev)
  moreover have "\<not> isspace (hd ?d)" using d by (rule hd_dropWhile)
  ultimately show "\<not> isspace (hd (strip s))" by simp
qed

lemma strip_idem: "strip (strip s) = strip s"
proof (cases "strip s = []")
  case True
  have "strip [] = []" by (simp add: strip_def)
  then show ?thesis unfolding True .
next
  case False
  let ?t = "strip s"
  have 1: "dropWhile isspace ?t = ?t"
    using strip_ends(1) [OF False] by (simp add: dropWhile_keep)
  have "hd (rev ?t) = last ?t" using False by (simp add: hd_rev)
  then have 2: "dropWhile isspace (rev ?t) = rev ?t"
    using strip_ends(2) [OF False] by (simp add: dropWhile_keep)
  have "strip ?t = rev (dropWhile isspace (rev (dropWhile isspace ?t)))"
    by (simp add: strip_def)
  also have "\<dots> = ?t" unfolding 1 2 by simp
  finally show ?thesis .
qed

lemma length_strip: "length (strip s) \<le> length s"
proof -
  have "length (strip s) \<le> length (dropWhile isspace s)"
    unfolding strip_def by (simp add: length_dropWhile_le) (metis length_dropWhile_le length_rev)
  also have "\<dots> \<le> length s" by (rule length_dropWhile_le)
  finally show ?thesis .
qed

lemma strip_decomp: "\<exists>l r. v = l @ strip v @ r \<and> list_all isspace l \<and> list_all isspace r"
proof -
  let ?l = "takeWhile isspace v"
  let ?d = "dropWhile isspace v"
  let ?r = "takeWhile isspace (rev ?d)"
  have e: "?r @ dropWhile isspace (rev ?d) = rev ?d" by (rule takeWhile_dropWhile_id)
  have "?d = rev (rev ?d)" by simp
  also have "\<dots> = rev (?r @ dropWhile isspace (rev ?d))" unfolding e ..
  also have "\<dots> = rev (dropWhile isspace (rev ?d)) @ rev ?r" by (rule rev_append)
  finally have d: "?d = strip v @ rev ?r" unfolding strip_def .
  have "v = ?l @ ?d" by simp
  then have v: "v = ?l @ strip v @ rev ?r" using d by (simp only:)
  have l: "list_all isspace ?l" by (auto simp: list_all_iff dest: set_takeWhileD)
  have r: "list_all isspace (rev ?r)" by (auto simp: list_all_iff dest: set_takeWhileD)
  from v l r show ?thesis by blast
qed

lemma strip_of_padded:
  assumes l: "list_all isspace l" and r: "list_all isspace r"
    and t: "t = [] \<or> (\<not> isspace (hd t) \<and> \<not> isspace (last t))"
  shows "strip (l @ t @ r) = t"
proof (cases "t = []")
  case True
  have "list_all isspace (l @ r)" using l r by simp
  then have dw: "dropWhile isspace (l @ r) = []" by (rule dropWhile_all)
  show ?thesis unfolding True strip_def append_Nil dw by simp
next
  case False
  then have h: "\<not> isspace (hd t)" and e: "\<not> isspace (last t)" using t by simp_all
  have "dropWhile isspace (l @ t @ r) = dropWhile isspace (t @ r)"
    using l by (simp add: dropWhile_append2 list_all_iff)
  also have "\<dots> = t @ r"
    using False h by (simp add: dropWhile_keep)
  finally have 1: "dropWhile isspace (l @ t @ r) = t @ r" .
  have "\<And>x. x \<in> set (rev r) \<Longrightarrow> isspace x" using r by (simp add: list_all_iff)
  then have "dropWhile isspace (rev r @ rev t) = dropWhile isspace (rev t)"
    by (rule dropWhile_append2)
  also have "\<dots> = rev t"
    using False e by (simp add: dropWhile_keep hd_rev)
  finally have 2: "dropWhile isspace (rev (t @ r)) = rev t" by simp
  show ?thesis unfolding strip_def 1 2 by simp
qed

lemma spec_trimmed_iff: "spec_trimmed v t \<longleftrightarrow> t = strip v"
proof
  assume "spec_trimmed v t"
  then obtain l r where "v = l @ t @ r" "list_all isspace l" "list_all isspace r"
    "t = [] \<or> (\<not> isspace (hd t) \<and> \<not> isspace (last t))"
    unfolding spec_trimmed_def by blast
  then show "t = strip v" using strip_of_padded [of l r t] by simp
next
  assume t: "t = strip v"
  obtain l r where "v = l @ strip v @ r" "list_all isspace l" "list_all isspace r"
    using strip_decomp [of v] by blast
  moreover have "strip v = [] \<or> (\<not> isspace (hd (strip v)) \<and> \<not> isspace (last (strip v)))"
    using strip_ends [of v] by blast
  ultimately show "spec_trimmed v t" unfolding spec_trimmed_def t by blast
qed

section \<open>The denylist rule\<close>

lemma token_match:
  "(u = k \<or> (\<exists>t. u = (k @ [s]) @ t) \<or> (\<exists>t. u = t @ [s] @ k) \<or> (\<exists>a b. u = a @ ([s] @ k @ [s]) @ b))
   \<longleftrightarrow> (\<exists>a b. u = a @ k @ b \<and> (a = [] \<or> last a = s) \<and> (b = [] \<or> hd b = s))"
proof
  assume "u = k \<or> (\<exists>t. u = (k @ [s]) @ t) \<or> (\<exists>t. u = t @ [s] @ k) \<or> (\<exists>a b. u = a @ ([s] @ k @ [s]) @ b)"
  then consider "u = k" | t where "u = (k @ [s]) @ t" | t where "u = t @ [s] @ k"
    | a b where "u = a @ ([s] @ k @ [s]) @ b"
    by blast
  then show "\<exists>a b. u = a @ k @ b \<and> (a = [] \<or> last a = s) \<and> (b = [] \<or> hd b = s)"
  proof cases
    case 1
    then have "u = [] @ k @ []" by simp
    then show ?thesis by blast
  next
    case 2
    then have "u = [] @ k @ (s # t)" by simp
    then show ?thesis by (metis list.sel(1))
  next
    case 3
    then have "u = (t @ [s]) @ k @ []" by simp
    then show ?thesis by (metis last_snoc)
  next
    case 4
    then have "u = (a @ [s]) @ k @ (s # b)" by simp
    then show ?thesis by (metis last_snoc list.sel(1))
  qed
next
  assume "\<exists>a b. u = a @ k @ b \<and> (a = [] \<or> last a = s) \<and> (b = [] \<or> hd b = s)"
  then obtain a b where u: "u = a @ k @ b" and l: "a = [] \<or> last a = s" and r: "b = [] \<or> hd b = s"
    by blast
  have a: "a = [] \<or> (\<exists>a'. a = a' @ [s])" using l by (metis append_butlast_last_id)
  have b: "b = [] \<or> (\<exists>b'. b = [s] @ b')" using r by (metis append_Cons append_Nil list.collapse)
  from a b u show "u = k \<or> (\<exists>t. u = (k @ [s]) @ t) \<or> (\<exists>t. u = t @ [s] @ k) \<or> (\<exists>a b. u = a @ ([s] @ k @ [s]) @ b)"
    by (elim disjE exE) (simp_all, blast+)
qed

lemma code_points_append: "code_points (x @ y) = code_points x @ code_points y"
  by (simp add: code_points_def)

lemma code_points_space: "code_points '' '' = [32]" "of_char (CHR '' '') = (32::nat)"
  by (simp_all add: code_points_def)

lemma keyword_hit_token: "keyword_hit u kw \<longleftrightarrow> token_occurrence u kw"
  unfolding keyword_hit_def token_occurrence_def startswith_iff endswith_iff contains_iff
    code_points_append code_points_space
  by (rule token_match)

lemma keyword_hit_spec:
  "keyword_hit u kw \<longleftrightarrow>
     (u = code_points kw
      \<or> (\<exists>b. u = code_points kw @ code_points '' '' @ b)
      \<or> (\<exists>a. u = a @ code_points '' '' @ code_points kw)
      \<or> (\<exists>a b. u = a @ code_points '' '' @ code_points kw @ code_points '' '' @ b))"
  unfolding keyword_hit_def startswith_iff endswith_iff contains_iff code_points_append
  by (simp only: append_assoc)

lemma keyword_loop_cases:
  "keyword_loop u kws = (if \<exists>kw. kw \<in> set kws \<and> keyword_hit u kw then Inl (ValidationError injection_message) else Inr ())"
  by (induction kws) auto

lemma list_ex_set: "list_ex P xs \<longleftrightarrow> (\<exists>x. x \<in> set xs \<and> P x)"
  by (simp add: list_ex_iff Bex_def)

lemma literal_rule_code:
  "list_ex (\<lambda>seq. contains v seq) FORBIDDEN_SEQUENCES \<longleftrightarrow> spec_literal_rule v"
proof -
  have "set FORBIDDEN_SEQUENCES = {''--'', '';'', ''/*'', ''*/''}"
    unfolding FORBIDDEN_SEQUENCES_def by (simp only: list.set)
  then show ?thesis
    unfolding spec_literal_rule_def list_ex_set contains_iff by blast
qed

lemma keyword_rule_code:
  "(\<exists>kw. kw \<in> set SQL_KEYWORDS \<and> keyword_hit u kw) \<longleftrightarrow> spec_keyword_rule u"
proof -
  have "set SQL_KEYWORDS = {''SELECT'', ''INSERT'', ''UPDATE'', ''DELETE'', ''DROP'', ''ALTER'', ''UNION''}"
    unfolding SQL_KEYWORDS_def by (simp only: list.set)
  then show ?thesis
    unfolding spec_keyword_rule_def keyword_hit_spec by (simp only:)
qed

lemma screen_rejects_strip:
  "spec_screen_rejects v \<longleftrightarrow> spec_literal_rule (strip v) \<or> spec_keyword_rule (upper (strip v))"
  unfolding spec_screen_rejects_def spec_trimmed_iff by simp

lemma reject_injection_cases:
  "reject_injection (Some v) = (if spec_screen_rejects v then Inl (ValidationError injection_message) else Inr ())"
  unfolding reject_injection_def screen_rejects_strip Let_def or_empty_def
  by (simp add: literal_rule_code keyword_loop_cases keyword_rule_code)

lemmas eval_strings = strip_def isspace_def or_empty_def upper_def upper_char_def code_points_def
  ascii_lowercase_def ascii_uppercase_def ascii_digits_def endswith_def

lemmas eval_reject = reject_injection_def FORBIDDEN_SEQUENCES_def SQL_KEYWORDS_def keyword_hit_def
  eval_strings

text \<open>
  Claim C1.  For every input string (of code points up to U+00FF, the strings of this
  model), \<open>reject_injection\<close> raises \<open>ValidationError\<close> exactly
  when the denylist rule of the specification holds of it: the value trimmed of leading
  and trailing whitespace contains one of \<open>--\<close>, \<open>;\<close>, \<open>/*\<close>, \<open>*/\<close>, or the uppercased
  trimmed value equals a keyword, starts with the keyword and a space, ends with a space
  and the keyword, or contains the keyword between two spaces; otherwise it returns.  The
  trimmed value of the specification is the one \<open>strip\<close> computes and no other.  The
  keyword rule is a match of the keyword as a token (bounded by the start or a space, and
  by the end or a space), not a search for the keyword as a substring.
\<close>

theorem reject_injection_spec:
  "(reject_injection (Some v) = Inl (ValidationError injection_message) \<longleftrightarrow> spec_screen_rejects v)
   \<and> (reject_injection (Some v) = Inr () \<longleftrightarrow> \<not> spec_screen_rejects v)
   \<and> (spec_trimmed v t \<longleftrightarrow> t = strip v)
   \<and> (spec_keyword_rule u \<longleftrightarrow> (\<exists>kw. kw \<in> set SQL_KEYWORDS \<and> token_occurrence u kw))"
  by (simp add: reject_injection_cases spec_trimmed_iff keyword_rule_code [symmetric] keyword_hit_token)

theorem reject_injection_spec_witness:
  "spec_screen_rejects (CHR 0x09 # ''drop'' @ [CHR 0x0A])
   \<and> \<not> keyword_hit (upper (CHR 0x09 # ''drop'' @ [CHR 0x0A])) ''DROP''
   \<and> spec_screen_rejects (CHR 0xA0 # ''drop table'')
   \<and> spec_screen_rejects (''select'' @ [CHR 0x85])
   \<and> spec_screen_rejects ''a;b''
   \<and> \<not> spec_screen_rejects ''reunion''
   \<and> contains (upper (strip ''reunion'')) (code_points ''UNION'')
   \<and> spec_trimmed (CHR 0xA0 # ''drop table'') ''drop table''"
proof -
  have 1: "reject_injection (Some (CHR 0x09 # ''drop'' @ [CHR 0x0A])) = Inl (ValidationError injection_message)"
    by (simp add: eval_reject)
  have 2: "\<not> keyword_hit (upper (CHR 0x09 # ''drop'' @ [CHR 0x0A])) ''DROP''"
    by (simp add: eval_reject)
  have 3: "reject_injection (Some (CHR 0xA0 # ''drop table'')) = Inl (ValidationError injection_message)"
    by (simp add: eval_reject)
  have 4: "reject_injection (Some (''select'' @ [CHR 0x85])) = Inl (ValidationError injection_message)"
    by (simp add: eval_reject)
  have 5: "reject_injection (Some ''a;b'') = Inl (ValidationError injection_message)"
    by (simp add: eval_reject)
  have 6: "reject_injection (Some ''reunion'') = Inr ()"
    by (simp add: eval_reject)
  have 7: "contains (upper (strip ''reunion'')) (code_points ''UNION'')"
    by (simp add: eval_reject)
  have 8: "strip (CHR 0xA0 # ''drop table'') = ''drop table''"
    by (simp add: eval_strings)
  note t = reject_injection_spec
  from 1 t [of "CHR 0x09 # ''drop'' @ [CHR 0x0A]"]
  have a: "spec_screen_rejects (CHR 0x09 # ''drop'' @ [CHR 0x0A])" by blast
  from 3 t [of "CHR 0xA0 # ''drop table''"]
  have b: "spec_screen_rejects (CHR 0xA0 # ''drop table'')" by blast
  from 4 t [of "''select'' @ [CHR 0x85]"]
  have c: "spec_screen_rejects (''select'' @ [CHR 0x85])" by blast
  from 5 t [of "''a;b''"] have d: "spec_screen_rejects ''a;b''" by blast
  from 6 t [of "''reunion''"] have e: "\<not> spec_screen_rejects ''reunion''" by simp
  from 8 t [of "CHR 0xA0 # ''drop table''" "''drop table''"]
  have f: "spec_trimmed (CHR 0xA0 # ''drop table'') ''drop table''" by simp
  show ?thesis by (intro conjI) (fact a 2 b c d e 7 f)+
qed

section \<open>Names that carry a keyword\<close>

lemma glued_iff_no_hit:
  "glued_keywords_only v \<longleftrightarrow> \<not> (\<exists>kw. kw \<in> set SQL_KEYWORDS \<and> keyword_hit (upper (strip v)) kw)"
  unfolding glued_keywords_only_def keyword_hit_token token_occurrence_def by blast

lemma glued_iff_list_ex:
  "glued_keywords_only v \<longleftrightarrow> \<not> list_ex (keyword_hit (upper (strip v))) SQL_KEYWORDS"
  by (simp add: glued_iff_no_hit list_ex_set)

lemma glued_after_trimming: "\<not> glued_keywords_only (CHR 0xA0 # ''drop'')"
  by (simp add: glued_iff_list_ex SQL_KEYWORDS_def keyword_hit_def eval_strings)

lemma match_plus_dollar_strip:
  assumes "match_plus_dollar cls v"
  shows "list_all cls (strip v)"
proof (cases "v \<noteq> [] \<and> last v = CHR 0x0A")
  case True
  then have v: "v = butlast v @ [CHR 0x0A]" by (metis append_butlast_last_id)
  have "list_all cls (butlast v)" using assms True by (simp add: match_plus_dollar_def Let_def)
  then have "list_all cls (strip (butlast v))" by (rule list_all_strip)
  moreover have "strip v = strip (butlast v)"
    using strip_snoc_space [of "CHR 0x0A" "butlast v"] v by (simp add: isspace_def)
  ultimately show ?thesis by simp
next
  case False
  then have "list_all cls v" using assms by (auto simp: match_plus_dollar_def Let_def)
  then show ?thesis by (rule list_all_strip)
qed

lemma contains_char: "contains s p \<Longrightarrow> c \<in> set p \<Longrightarrow> c \<in> set s"
  by (auto simp: contains_iff)

lemma name_chars_no_forbidden:
  assumes "list_all name_char s" and "\<not> contains s ''--''"
  shows "\<not> list_ex (\<lambda>seq. contains s seq) FORBIDDEN_SEQUENCES"
proof -
  have semi: "\<not> name_char (CHR '';'')" and star: "\<not> name_char (CHR ''*'')"
    by (simp_all add: name_char_def ascii_uppercase_def ascii_lowercase_def)
  have "\<not> contains s '';''"
    using contains_char [of s "'';''" "CHR '';''"] assms(1) semi by (auto simp: list_all_iff)
  moreover have "\<not> contains s ''/*''"
    using contains_char [of s "''/*''" "CHR ''*''"] assms(1) star by (auto simp: list_all_iff)
  moreover have "\<not> contains s ''*/''"
    using contains_char [of s "''*/''" "CHR ''*''"] assms(1) star by (auto simp: list_all_iff)
  ultimately show ?thesis using assms(2) by (simp add: FORBIDDEN_SEQUENCES_def)
qed

lemma reject_injection_result:
  "reject_injection d = Inr () \<or> reject_injection d = Inl (ValidationError injection_message)"
  by (simp add: reject_injection_def Let_def keyword_loop_cases)

lemma name_structural_iff:
  "m \<noteq> [] \<Longrightarrow> field_validate (name_structural_validators m) (Some v) \<longleftrightarrow>
     strip v \<noteq> [] \<and> length v \<le> 100 \<and> match_plus_dollar name_char v"
  by (auto simp: field_validate_def name_structural_validators_def DataRequired_def Length_def
      Regexp_def or_empty_def strip_def)

lemma name_validators_iff:
  "m \<noteq> [] \<Longrightarrow> field_validate (name_validators m) (Some v) \<longleftrightarrow>
     field_validate (name_structural_validators m) (Some v) \<and> reject_injection (Some v) = Inr ()"
  using reject_injection_result [of "Some v"]
  by (auto simp: field_validate_def name_validators_def name_structural_validators_def DataRequired_def Length_def
      Regexp_def or_empty_def)

lemmas eval_validators = field_validate_def name_validators_def name_structural_validators_def
  fname_validators_def lname_validators_def DataRequired_def Length_def Regexp_def
  match_plus_dollar_def name_char_def

text \<open>
  Claim C9, as amended.  When every occurrence of a denylist keyword in the trimmed,
  uppercased value touches a character other than a space (as in \<open>Drop-Table\<close> or
  \<open>O'Union\<close>), the keyword loop of \<open>reject_injection\<close> does not raise; and when the value
  moreover passes the structural validators of a name field (required, at most 100
  characters, only letters, apostrophes, hyphens and spaces) and its trimmed form does
  not contain \<open>--\<close>, it is accepted as a first name and as a last name.
\<close>

theorem glued_keyword_accepted:
  "glued_keywords_only v \<Longrightarrow>
     keyword_loop (upper (strip v)) SQL_KEYWORDS = Inr ()
     \<and> (field_validate (name_structural_validators ''First name is required.'') (Some v)
          \<and> \<not> contains (strip v) ''--'' \<longrightarrow> field_validate fname_validators (Some v))
     \<and> (field_validate (name_structural_validators ''Last name is required.'') (Some v)
          \<and> \<not> contains (strip v) ''--'' \<longrightarrow> field_validate lname_validators (Some v))"
proof -
  assume g: "glued_keywords_only v"
  then have loop: "keyword_loop (upper (strip v)) SQL_KEYWORDS = Inr ()"
    by (simp add: glued_iff_no_hit keyword_loop_cases)
  have ok: "field_validate (name_validators m) (Some v)"
    if m: "m \<noteq> []" and s: "field_validate (name_structural_validators m) (Some v)"
      and d: "\<not> contains (strip v) ''--''" for m
  proof -
    have "list_all name_char (strip v)"
      using s m by (simp add: name_structural_iff match_plus_dollar_strip)
    then have "\<not> list_ex (\<lambda>seq. contains (strip v) seq) FORBIDDEN_SEQUENCES"
      using d by (rule name_chars_no_forbidden)
    then have "reject_injection (Some v) = Inr ()"
      using loop by (simp add: reject_injection_def or_empty_def)
    then show ?thesis using s m by (simp add: name_validators_iff)
  qed
  show ?thesis
    using loop ok [of "''First name is required.''"] ok [of "''Last name is required.''"]
    by (simp add: fname_validators_def lname_validators_def)
qed

theorem glued_keyword_accepted_witness:
  "glued_keywords_only ''Drop-Table'' \<and> field_validate fname_validators (Some ''Drop-Table'')
   \<and> glued_keywords_only ''O'Union'' \<and> field_validate lname_validators (Some ''O'Union'')"
proof -
  have g1: "glued_keywords_only ''Drop-Table''"
    by (simp add: glued_iff_list_ex SQL_KEYWORDS_def keyword_hit_def eval_strings)
  have g2: "glued_keywords_only ''O'Union''"
    by (simp add: glued_iff_list_ex SQL_KEYWORDS_def keyword_hit_def eval_strings)
  have s1: "field_validate (name_structural_validators ''First name is required.'') (Some ''Drop-Table'')
            \<and> \<not> contains (strip ''Drop-Table'') ''--''"
    by (simp add: eval_validators eval_strings)
  have s2: "field_validate (name_structural_validators ''Last name is required.'') (Some ''O'Union'')
            \<and> \<not> contains (strip ''O'Union'') ''--''"
    by (simp add: eval_validators eval_strings)
  from glued_keyword_accepted [OF g1] s1 glued_keyword_accepted [OF g2] s2 g1 g2
  show ?thesis by blast
qed

text \<open>
  The claim as first stated, without the two extra conditions, fails: \<open>Drop--Table\<close> has
  its only keyword next to a hyphen and consists of permitted characters, and the
  literal-substring check on \<open>--\<close> rejects it.
\<close>

theorem glued_keyword_rejected_counterexample:
  "glued_keywords_only ''Drop--Table''
   \<and> contains (upper (strip ''Drop--Table'')) (code_points ''DROP'')
   \<and> field_validate (name_structural_validators ''First name is required.'') (Some ''Drop--Table'')
   \<and> \<not> field_validate fname_validators (Some ''Drop--Table'')
   \<and> \<not> field_validate lname_validators (Some ''Drop--Table'')"
proof -
  have "glued_keywords_only ''Drop--Table''"
    by (simp add: glued_iff_list_ex SQL_KEYWORDS_def keyword_hit_def eval_strings)
  moreover have "contains (upper (strip ''Drop--Table'')) (code_points ''DROP'')"
    by (simp add: eval_strings)
  moreover have "field_validate (name_structural_validators ''First name is required.'') (Some ''Drop--Table'')"
    by (simp add: eval_validators eval_strings)
  moreover have "reject_injection (Some ''Drop--Table'') = Inl (ValidationError injection_message)"
    by (simp add: eval_reject)
  then have "\<not> field_validate fname_validators (Some ''Drop--Table'')"
    "\<not> field_validate lname_validators (Some ''Drop--Table'')"
    by (simp_all add: fname_validators_def lname_validators_def name_validators_iff)
  ultimately show ?thesis by blast
qed

section \<open>Deleting and updating by id\<close>

lemmas eval_views = login_required_def truthy_def delete_def delete_view_def update_def update_view_def
  index_def index_view_def login_def logout_def logout_view_def get_or_404_def in_int64_def flash_def
  is_submitted_def field_data_def new_ContactForm_def new_LoginForm_def validate_ContactForm_def
  validate_LoginForm_def set_permanent_def

lemmas eval_inputs = toy_env_def jane_def omar_def admin_def guest_def two_rows_def logged_in_def post_to_def

lemma find_absent: "n \<notin> sno ` set rows \<longleftrightarrow> find (\<lambda>r. sno r = n) rows = None"
  by (auto simp: find_None_iff)

lemma get_or_404_sno: "get_or_404 rows n = Inr r \<Longrightarrow> sno r = n"
  by (auto simp: get_or_404_def find_Some_iff split: if_splits option.splits)

lemma get_or_404_absent:
  "n \<notin> sno ` set rows \<Longrightarrow>
     get_or_404 rows n = (if in_int64 n then Inl NotFound else Inl OverflowError)"
  by (simp add: get_or_404_def find_absent)

lemma get_or_404_present:
  "n \<in> sno ` set rows \<Longrightarrow> in_int64 n \<Longrightarrow> \<exists>r. get_or_404 rows n = Inr r"
  using find_absent [of n rows] by (auto simp: get_or_404_def split: option.splits)

lemma get_or_404_filter_same:
  "in_int64 n \<Longrightarrow> get_or_404 (filter (\<lambda>r. sno r \<noteq> n) rows) n = Inl NotFound"
proof -
  have "find (\<lambda>r. sno r = n) (filter (\<lambda>r. sno r \<noteq> n) rows) = None"
    by (simp add: find_None_iff)
  then show "in_int64 n \<Longrightarrow> ?thesis" by (simp add: get_or_404_def)
qed

lemma find_filter_other:
  "m \<noteq> n \<Longrightarrow> find (\<lambda>r. sno r = m) (filter (\<lambda>r. sno r \<noteq> n) rows) = find (\<lambda>r. sno r = m) rows"
  by (induction rows) auto

lemma get_or_404_filter_other:
  "m \<noteq> n \<Longrightarrow> get_or_404 (filter (\<lambda>r. sno r \<noteq> n) rows) m = get_or_404 rows m"
  by (simp add: get_or_404_def find_filter_other)

text \<open>
  Claim C6, as amended.  For a caller who is logged in: when no record has the id,
  \<open>delete\<close> and \<open>update\<close> leave the database as it was, and when the id is moreover an
  SQLite \<open>INTEGER\<close> (from \<open>-2^63\<close> up to \<open>2^63 - 1\<close>) they answer not-found (404) and
  leave the session as it was too; when a record has the id (every stored id is an SQLite
  \<open>INTEGER\<close>), \<open>delete\<close> removes the rows with that id and keeps every other row as it was,
  in the same order, so that the id is no longer found and every other id is looked up
  as before.
\<close>

theorem delete_update_by_id:
  "truthy (sess ''user_id'') \<Longrightarrow>
     (n \<notin> sno ` set (first_app a) \<longrightarrow>
        fst (delete n a sess req) = a \<and> fst (update e n a sess req) = a)
     \<and> (n \<notin> sno ` set (first_app a) \<and> in_int64 n \<longrightarrow>
        delete n a sess req = (a, sess, not_found) \<and> update e n a sess req = (a, sess, not_found))
     \<and> (n \<in> sno ` set (first_app a) \<and> in_int64 n \<longrightarrow>
        fst (delete n a sess req) = a\<lparr>first_app := filter (\<lambda>r. sno r \<noteq> n) (first_app a)\<rparr>
        \<and> get_or_404 (first_app (fst (delete n a sess req))) n = Inl NotFound
        \<and> (\<forall>m. m \<noteq> n \<longrightarrow>
              get_or_404 (first_app (fst (delete n a sess req))) m = get_or_404 (first_app a) m))"
proof -
  assume auth: "truthy (sess ''user_id'')"
  have absent: "delete n a sess req = (a, sess, if in_int64 n then not_found else server_error)
      \<and> update e n a sess req = (a, sess, if in_int64 n then not_found else server_error)"
    if "n \<notin> sno ` set (first_app a)"
    using get_or_404_absent [OF that] auth
    by (simp add: delete_def update_def login_required_def delete_view_def update_view_def)
  have present: "fst (delete n a sess req) = a\<lparr>first_app := filter (\<lambda>r. sno r \<noteq> n) (first_app a)\<rparr>"
    if "n \<in> sno ` set (first_app a)" "in_int64 n"
  proof -
    from that obtain r where r: "get_or_404 (first_app a) n = Inr r"
      using get_or_404_present by blast
    then have "sno r = n" by (rule get_or_404_sno)
    then show ?thesis
      using r auth by (simp add: delete_def login_required_def delete_view_def)
  qed
  have 1: "n \<notin> sno ` set (first_app a) \<longrightarrow>
        fst (delete n a sess req) = a \<and> fst (update e n a sess req) = a"
    using absent by simp
  have 2: "n \<notin> sno ` set (first_app a) \<and> in_int64 n \<longrightarrow>
        delete n a sess req = (a, sess, not_found) \<and> update e n a sess req = (a, sess, not_found)"
    using absent by simp
  have 3: "n \<in> sno ` set (first_app a) \<and> in_int64 n \<longrightarrow>
        fst (delete n a sess req) = a\<lparr>first_app := filter (\<lambda>r. sno r \<noteq> n) (first_app a)\<rparr>
        \<and> get_or_404 (first_app (fst (delete n a sess req))) n = Inl NotFound
        \<and> (\<forall>m. m \<noteq> n \<longrightarrow>
              get_or_404 (first_app (fst (delete n a sess req))) m = get_or_404 (first_app a) m)"
    using present by (simp add: get_or_404_filter_same get_or_404_filter_other)
  show ?thesis by (intro conjI) (fact 1 2 3)+
qed

theorem delete_update_by_id_witness:
  "truthy (logged_in ''user_id'')
   \<and> 7 \<notin> sno ` set (first_app two_rows) \<and> in_int64 7
   \<and> delete 7 two_rows logged_in (post_to (delete_ep 7) ''/delete/7'' []) = (two_rows, logged_in, not_found)
   \<and> update toy_env 7 two_rows logged_in (post_to (update_ep 7) ''/update/7'' []) = (two_rows, logged_in, not_found)
   \<and> 1 \<in> sno ` set (first_app two_rows) \<and> in_int64 1
   \<and> first_app (fst (delete 1 two_rows logged_in (post_to (delete_ep 1) ''/delete/1'' []))) = [omar]"
proof -
  have auth: "truthy (logged_in ''user_id'')"
    by (simp add: truthy_def logged_in_def)
  have absent: "7 \<notin> sno ` set (first_app two_rows) \<and> in_int64 7"
    by (simp add: in_int64_def eval_inputs)
  have present: "1 \<in> sno ` set (first_app two_rows) \<and> in_int64 1"
    by (simp add: in_int64_def eval_inputs)
  have rows: "filter (\<lambda>r. sno r \<noteq> 1) (first_app two_rows) = [omar]"
    by (simp add: eval_inputs)
  note t7d = delete_update_by_id [where sess = logged_in and a = two_rows and n = 7
      and req = "post_to (delete_ep 7) ''/delete/7'' []" and e = toy_env, OF auth]
  note t7u = delete_update_by_id [where sess = logged_in and a = two_rows and n = 7
      and req = "post_to (update_ep 7) ''/update/7'' []" and e = toy_env, OF auth]
  note t1 = delete_update_by_id [where sess = logged_in and a = two_rows and n = 1
      and req = "post_to (delete_ep 1) ''/delete/1'' []" and e = toy_env, OF auth]
  have d7: "delete 7 two_rows logged_in (post_to (delete_ep 7) ''/delete/7'' []) = (two_rows, logged_in, not_found)"
    using t7d absent by blast
  have u7: "update toy_env 7 two_rows logged_in (post_to (update_ep 7) ''/update/7'' []) = (two_rows, logged_in, not_found)"
    using t7u absent by blast
  have "fst (delete 1 two_rows logged_in (post_to (delete_ep 1) ''/delete/1'' []))
          = two_rows\<lparr>first_app := filter (\<lambda>r. sno r \<noteq> 1) (first_app two_rows)\<rparr>"
    using t1 present by blast
  then have d1: "first_app (fst (delete 1 two_rows logged_in (post_to (delete_ep 1) ''/delete/1'' []))) = [omar]"
    unfolding rows by simp
  show ?thesis
    using auth absent present d7 u7 d1 by (intro conjI) simp_all
qed

text \<open>
  The claim as first stated, for every id that no record has, fails at \<open>2^63\<close>: the route
  \<open>/delete/<int:sno>\<close> accepts it, the lookup raises \<open>OverflowError\<close>, and the answer is the
  page of the 500 handler, not 404.
\<close>

theorem delete_huge_id_counterexample:
  "truthy (logged_in ''user_id'')
   \<and> 9223372036854775808 \<notin> sno ` set (first_app two_rows)
   \<and> delete 9223372036854775808 two_rows logged_in
         (post_to (delete_ep 9223372036854775808) ''/delete/9223372036854775808'' [])
       = (two_rows, logged_in, server_error)
   \<and> update toy_env 9223372036854775808 two_rows logged_in
         (post_to (update_ep 9223372036854775808) ''/update/9223372036854775808'' [])
       = (two_rows, logged_in, server_error)
   \<and> server_error \<noteq> not_found"
  by (simp add: eval_views eval_inputs)

lemmas eval_forms = eval_validators eval_reject email_validators_def Email_def username_validators_def
  password_validators_def username_char_def required_message_def

lemmas eval_login = eval_views eval_inputs login_as_def check_password_def

section \<open>Updating a record\<close>

text \<open>
  Claim C5.  For a logged-in caller, an existing record id and a submission of the three
  fields: when all three values pass their validators, \<open>update\<close> overwrites the three
  fields of the record together (with the trimmed values) and changes nothing else; when
  any one of them fails, the database is left exactly as it was.
\<close>

theorem update_all_or_nothing:
  "truthy (sess ''user_id'') \<Longrightarrow> meth req = POST \<Longrightarrow> get_or_404 (first_app a) n = Inr rec \<Longrightarrow>
   form req ''fname'' = Some fn \<Longrightarrow> form req ''lname'' = Some ln \<Longrightarrow> form req ''email'' = Some em \<Longrightarrow>
   (field_validate fname_validators (Some fn) \<and> field_validate lname_validators (Some ln)
      \<and> field_validate (email_validators (validate_email e)) (Some em) \<longrightarrow>
        fst (update e n a sess req) =
          a\<lparr>first_app := map (\<lambda>r. if sno r = n
                                     then r\<lparr>fname := strip fn, lname := strip ln, email := strip em\<rparr>
                                     else r) (first_app a)\<rparr>)
   \<and> (\<not> (field_validate fname_validators (Some fn) \<and> field_validate lname_validators (Some ln)
           \<and> field_validate (email_validators (validate_email e)) (Some em)) \<longrightarrow>
        fst (update e n a sess req) = a)"
proof -
  assume auth: "truthy (sess ''user_id'')" and post: "meth req = POST"
    and rec: "get_or_404 (first_app a) n = Inr rec"
    and f: "form req ''fname'' = Some fn" "form req ''lname'' = Some ln" "form req ''email'' = Some em"
  have n: "sno rec = n" using rec by (rule get_or_404_sno)
  have form: "new_ContactForm req (Some rec) = \<lparr>fname_data = Some fn, lname_data = Some ln, email_data = Some em\<rparr>"
    using post f by (simp add: new_ContactForm_def field_data_def is_submitted_def)
  have upd: "update e n a sess req = update_view e n a sess req"
    using auth by (simp add: update_def login_required_def)
  show ?thesis
    unfolding upd using rec post n
    by (auto simp: update_view_def form validate_ContactForm_def is_submitted_def Let_def)
qed

theorem update_all_or_nothing_witness:
  "first_app (fst (update toy_env 1 two_rows logged_in
      (post_to (update_ep 1) ''/update/1''
         [(''fname'', ''Janet''), (''lname'', '' Doe''), (''email'', ''janet@example.com'')])))
     = [\<lparr>sno = 1, fname = ''Janet'', lname = ''Doe'', email = ''janet@example.com''\<rparr>, omar]
   \<and> \<not> field_validate lname_validators (Some ''Doe;'')
   \<and> fst (update toy_env 1 two_rows logged_in
      (post_to (update_ep 1) ''/update/1''
         [(''fname'', ''Janet''), (''lname'', ''Doe;''), (''email'', ''janet@example.com'')])) = two_rows"
proof -
  have auth: "truthy (logged_in ''user_id'')"
    by (simp add: truthy_def logged_in_def)
  have rec: "get_or_404 (first_app two_rows) 1 = Inr jane"
    by (simp add: get_or_404_def in_int64_def eval_inputs)
  have ok: "field_validate fname_validators (Some ''Janet'')" "field_validate lname_validators (Some '' Doe'')"
    "field_validate (email_validators (validate_email toy_env)) (Some ''janet@example.com'')"
    by (simp_all add: eval_forms toy_env_def)
  have bad: "\<not> field_validate lname_validators (Some ''Doe;'')"
    by (simp add: eval_forms)
  have rows: "map (\<lambda>r. if sno r = 1 then r\<lparr>fname := strip ''Janet'', lname := strip '' Doe'',
                  email := strip ''janet@example.com''\<rparr> else r) (first_app two_rows)
              = [\<lparr>sno = 1, fname = ''Janet'', lname = ''Doe'', email = ''janet@example.com''\<rparr>, omar]"
    by (simp add: eval_inputs eval_strings)
  from update_all_or_nothing [where sess = logged_in and a = two_rows and n = 1 and rec = jane and e = toy_env
      and req = "post_to (update_ep 1) ''/update/1''
         [(''fname'', ''Janet''), (''lname'', '' Doe''), (''email'', ''janet@example.com'')]"
      and fn = "''Janet''" and ln = "'' Doe''" and em = "''janet@example.com''", OF auth _ rec]
    update_all_or_nothing [where sess = logged_in and a = two_rows and n = 1 and rec = jane and e = toy_env
      and req = "post_to (update_ep 1) ''/update/1''
         [(''fname'', ''Janet''), (''lname'', ''Doe;''), (''email'', ''janet@example.com'')]"
      and fn = "''Janet''" and ln = "''Doe;''" and em = "''janet@example.com''", OF auth _ rec]
    ok bad rows
  show ?thesis by (simp add: post_to_def)
qed

section \<open>Logging in\<close>

lemma password_length_invalid:
  "length p < 8 \<or> 128 < length p \<Longrightarrow> \<not> field_validate password_validators (Some p)"
  by (auto simp: field_validate_def password_validators_def DataRequired_def Length_def required_message_def)

lemma flash_other_key: "k \<noteq> ''_flashes'' \<Longrightarrow> flash m c sess k = sess k"
  by (simp add: flash_def)

lemma login_success:
  assumes "meth req = POST" and "validate_LoginForm (new_LoginForm req)"
    and "form req ''username'' = Some name" and "form req ''password'' = Some password"
    and "find (\<lambda>u. username u = strip name) (users a) = Some user"
    and "check_password e user password"
  shows "login e a sess req =
           (a, fresh_session (id' user),
            redirect (case args req ''next'' of
                        Some n \<Rightarrow> if n \<noteq> [] then location n else url_for_index
                      | None \<Rightarrow> url_for_index))"
proof -
  have "username_data (new_LoginForm req) = Some name" "password_data (new_LoginForm req) = Some password"
    using assms(1,3,4) by (simp_all add: new_LoginForm_def field_data_def is_submitted_def)
  then show ?thesis
    using assms(1,2,5,6)
    by (simp add: login_def Let_def is_submitted_def fresh_session_def flash_def set_permanent_def)
qed

text \<open>
  Claim C10.  A login submission whose password is shorter than 8 or longer than 128
  characters is rejected by form validation: the login form is shown again with the
  error notice, the answer is the same whatever the credential store holds (so also when
  the password is the stored user's own), and \<open>user_id\<close> in the session is left as it
  was.
\<close>

theorem login_password_length:
  "meth req = POST \<Longrightarrow> form req ''password'' = Some p \<Longrightarrow> length p < 8 \<or> 128 < length p \<Longrightarrow>
     login e a sess req =
       (a, flash ''Please correct the highlighted errors.'' ''danger'' sess, render_template ''login.html'' [])
     \<and> snd (login e a' sess req) = snd (login e a sess req)
     \<and> fst (snd (login e a sess req)) ''user_id'' = sess ''user_id''"
proof -
  assume post: "meth req = POST" and p: "form req ''password'' = Some p"
    and len: "length p < 8 \<or> 128 < length p"
  have "password_data (new_LoginForm req) = Some p"
    using post p by (simp add: new_LoginForm_def field_data_def is_submitted_def)
  then have invalid: "\<not> validate_LoginForm (new_LoginForm req)"
    using password_length_invalid [OF len] by (simp add: validate_LoginForm_def)
  have r: "login e b sess req =
      (b, flash ''Please correct the highlighted errors.'' ''danger'' sess, render_template ''login.html'' [])" for b
    using invalid post by (simp add: login_def Let_def)
  show ?thesis by (simp add: r flash_other_key)
qed

theorem login_password_length_witness:
  "check_password toy_env guest ''pw''
   \<and> find (\<lambda>u. username u = ''guest'') (users two_rows) = Some guest
   \<and> login toy_env two_rows Map.empty (login_as ''guest'' ''pw'' None) =
       (two_rows, flash ''Please correct the highlighted errors.'' ''danger'' Map.empty,
        render_template ''login.html'' [])"
proof -
  have "check_password toy_env guest ''pw''"
    by (simp add: check_password_def toy_env_def guest_def)
  moreover have "find (\<lambda>u. username u = ''guest'') (users two_rows) = Some guest"
    by (simp add: eval_inputs)
  moreover have "login toy_env two_rows Map.empty (login_as ''guest'' ''pw'' None) =
       (two_rows, flash ''Please correct the highlighted errors.'' ''danger'' Map.empty,
        render_template ''login.html'' [])"
    using login_password_length [where req = "login_as ''guest'' ''pw'' None" and p = "''pw''"
        and e = toy_env and a = two_rows and sess = Map.empty]
    by (simp add: login_as_def)
  ultimately show ?thesis by blast
qed

text \<open>
  Claim C7.  After a successful login (the form validates, the username is found and
  the password verifies) the session is \<open>fresh_session\<close> of the user's id: it holds the
  user's id, the permanent mark and the flashed success notice, all written by this
  login, and nothing else.  It is the same session whatever the session before the
  login was (the same as after a login from the empty session), every other key of the
  old session is gone, and a session cookie written at \<open>now\<close> expires 30 minutes later.
\<close>

theorem login_discards_session:
  "meth req = POST \<Longrightarrow> validate_LoginForm (new_LoginForm req) \<Longrightarrow>
   form req ''username'' = Some name \<Longrightarrow> form req ''password'' = Some password \<Longrightarrow>
   find (\<lambda>u. username u = strip name) (users a) = Some user \<Longrightarrow> check_password e user password \<Longrightarrow>
     fst (snd (login e a sess req)) = fresh_session (id' user)
     \<and> fst (snd (login e a sess req)) = fst (snd (login e a Map.empty req))
     \<and> (\<forall>k. k \<notin> {''user_id'', ''_permanent'', ''_flashes''} \<longrightarrow> fst (snd (login e a sess req)) k = None)
     \<and> fst (snd (login e a sess req)) ''user_id'' = Some (IntV (id' user))
     \<and> permanent (fst (snd (login e a sess req)))
     \<and> get_expiration_time now (fst (snd (login e a sess req))) = Some (now + 30 * 60)"
proof -
  assume a: "meth req = POST" "validate_LoginForm (new_LoginForm req)"
   "form req ''username'' = Some name" "form req ''password'' = Some password"
   "find (\<lambda>u. username u = strip name) (users a) = Some user" "check_password e user password"
  have r: "fst (snd (login e a s req)) = fresh_session (id' user)" for s
    using login_success [OF a, of s] by simp
  show ?thesis
    unfolding r
    by (simp add: fresh_session_def permanent_def get_expiration_time_def PERMANENT_SESSION_LIFETIME_def)
qed

theorem login_discards_session_witness:
  "fst (snd (login toy_env two_rows [''user_id'' \<mapsto> IntV 2, ''cart'' \<mapsto> IntV 9]
          (login_as ''i221693@nu.edu.pk'' ''123456@a'' None))) = fresh_session 1
   \<and> fst (snd (login toy_env two_rows [''user_id'' \<mapsto> IntV 2, ''cart'' \<mapsto> IntV 9]
          (login_as ''i221693@nu.edu.pk'' ''123456@a'' None))) ''cart'' = None
   \<and> get_expiration_time 100 (fst (snd (login toy_env two_rows [''user_id'' \<mapsto> IntV 2, ''cart'' \<mapsto> IntV 9]
          (login_as ''i221693@nu.edu.pk'' ''123456@a'' None)))) = Some 1900"
proof -
  let ?req = "login_as ''i221693@nu.edu.pk'' ''123456@a'' None"
  have m: "meth ?req = POST" by (simp add: login_as_def)
  have fu: "form ?req ''username'' = Some ''i221693@nu.edu.pk''" by (simp add: login_as_def)
  have fp: "form ?req ''password'' = Some ''123456@a''" by (simp add: login_as_def)
  have v: "validate_LoginForm (new_LoginForm ?req)"
    by (simp add: eval_forms eval_login)
  have u: "find (\<lambda>u. username u = strip ''i221693@nu.edu.pk'') (users two_rows) = Some admin"
    by (simp add: eval_inputs eval_strings)
  have c: "check_password toy_env admin ''123456@a''"
    by (simp add: check_password_def toy_env_def admin_def)
  have i: "id' admin = 1" by (simp add: admin_def)
  have k: "''cart'' \<notin> {''user_id'', ''_permanent'', ''_flashes''}" by simp
  from login_discards_session [OF m v fu fp u c,
      of "[''user_id'' \<mapsto> IntV 2, ''cart'' \<mapsto> IntV 9]" 100] i k
  show ?thesis
    by (simp add: fresh_session_def permanent_def get_expiration_time_def PERMANENT_SESSION_LIFETIME_def)
qed

text \<open>
  Claim C2.  In a session without \<open>user_id\<close>, \<open>login_required\<close> answers without calling
  the view it wraps, whatever that view is: the database is unchanged, a warning is
  flashed and the caller is redirected to the login page with the requested path as
  \<open>next\<close>.  This is the answer of \<open>logout\<close>, \<open>index\<close>, \<open>delete\<close> and \<open>update\<close>.  A successful
  login submitted on the page so reached (its \<open>next\<close> is the requested path) redirects to
  that path.
\<close>

theorem anonymous_redirect_and_return:
  "sess ''user_id'' = None \<Longrightarrow> path req \<noteq> [] \<Longrightarrow>
     login_required view_func a sess req = to_login a sess req
     \<and> logout a sess req = to_login a sess req
     \<and> index e a sess req = to_login a sess req
     \<and> delete n a sess req = to_login a sess req
     \<and> update e n a sess req = to_login a sess req
     \<and> (meth req' = POST \<and> args req' ''next'' = Some (path req) \<and> validate_LoginForm (new_LoginForm req')
          \<and> form req' ''username'' = Some name \<and> form req' ''password'' = Some password
          \<and> find (\<lambda>u. username u = strip name) (users a') = Some user \<and> check_password e user password
          \<longrightarrow> snd (snd (login e a' sess' req')) = redirect (location (path req)))"
proof -
  assume anon: "sess ''user_id'' = None" and p: "path req \<noteq> []"
  have g: "login_required v a sess req = to_login a sess req" for v
    using anon by (simp add: login_required_def truthy_def to_login_def)
  have ret: "snd (snd (login e a' sess' req')) = redirect (location (path req))"
    if "meth req' = POST" "args req' ''next'' = Some (path req)" "validate_LoginForm (new_LoginForm req')"
       "form req' ''username'' = Some name" "form req' ''password'' = Some password"
       "find (\<lambda>u. username u = strip name) (users a') = Some user" "check_password e user password"
    using login_success [OF that(1) that(3) that(4) that(5) that(6) that(7), of sess'] that(2) p by simp
  show ?thesis
    using ret by (simp add: g logout_def index_def delete_def update_def)
qed

theorem anonymous_redirect_and_return_witness:
  "delete 1 two_rows Map.empty (post_to (delete_ep 1) ''/delete/1'' []) =
     (two_rows, flash ''Please log in to continue.'' ''warning'' Map.empty,
      redirect (url_for_login (Some ''/delete/1'')))
   \<and> snd (snd (login toy_env two_rows (flash ''Please log in to continue.'' ''warning'' Map.empty)
        (login_as ''i221693@nu.edu.pk'' ''123456@a'' (Some ''/delete/1'')))) = redirect (location ''/delete/1'')"
proof -
  have v: "validate_LoginForm (new_LoginForm (login_as ''i221693@nu.edu.pk'' ''123456@a'' (Some ''/delete/1'')))"
    by (simp add: eval_forms eval_login)
  have u: "find (\<lambda>u. username u = strip ''i221693@nu.edu.pk'') (users two_rows) = Some admin"
    by (simp add: eval_inputs eval_strings)
  have c: "check_password toy_env admin ''123456@a''"
    by (simp add: check_password_def toy_env_def admin_def)
  from anonymous_redirect_and_return [where sess = Map.empty and req = "post_to (delete_ep 1) ''/delete/1'' []"
      and a = two_rows and n = 1 and e = toy_env
      and req' = "login_as ''i221693@nu.edu.pk'' ''123456@a'' (Some ''/delete/1'')"
      and name = "''i221693@nu.edu.pk''" and password = "''123456@a''" and a' = two_rows and user = admin
      and sess' = "flash ''Please log in to continue.'' ''warning'' Map.empty"] v u c
  show ?thesis by (simp add: login_as_def post_to_def to_login_def)
qed

section \<open>Seeding the admin account\<close>

lemma find_map_same: "(\<And>x. P (f x) = P x) \<Longrightarrow> find P (map f xs) = map_option f (find P xs)"
  by (induction xs) auto

lemma filter_map_same: "(\<And>x. P (f x) = P x) \<Longrightarrow> filter P (map f xs) = map f (filter P xs)"
  by (induction xs) auto

lemma find_None_filter: "find P xs = None \<Longrightarrow> filter P xs = []"
  by (induction xs) (auto split: if_splits)

lemma find_Some_filter_unique:
  "distinct (map g xs) \<Longrightarrow> find (\<lambda>x. g x = k) xs = Some u \<Longrightarrow> filter (\<lambda>x. g x = k) xs = [u]"
proof (induction xs)
  case Nil
  then show ?case by simp
next
  case (Cons x xs)
  show ?case
  proof (cases "g x = k")
    case True
    then have "u = x" using Cons.prems(2) by simp
    moreover have "g x \<notin> g ` set xs" using Cons.prems(1) by simp
    then have "\<forall>y\<in>set xs. g y \<noteq> k" using True by blast
    then have "filter (\<lambda>y. g y = k) xs = []" by (simp add: filter_empty_conv)
    ultimately show ?thesis using True by simp
  next
    case False
    then show ?thesis using Cons by simp
  qed
qed

lemma find_snoc: "find P (xs @ [y]) = (case find P xs of Some x \<Rightarrow> Some x | None \<Rightarrow> if P y then Some y else None)"
  by (induction xs) auto

lemma find_Some_mem: "find P xs = Some u \<Longrightarrow> u \<in> set xs \<and> P u"
  by (induction xs) (auto split: if_splits)

lemma map_by_key:
  assumes "distinct (map g xs)" and "u \<in> set xs"
  shows "map (\<lambda>x. if g x = g u then h x else x) xs = map (\<lambda>x. if x = u then h u else x) xs"
proof (rule map_cong [OF refl])
  fix x assume "x \<in> set xs"
  moreover have "inj_on g (set xs)" using assms(1) by (simp add: distinct_map)
  ultimately have "g x = g u \<longleftrightarrow> x = u" using assms(2) by (auto dest: inj_onD)
  then show "(if g x = g u then h x else x) = (if x = u then h u else x)" by auto
qed

text \<open>
  Claim C3.  Let the hasher verify what it hashed (at the configured admin password) and
  let the \<open>users\<close> table satisfy its constraints (unique ids, unique usernames).  Then
  running \<open>ensure_seed_admin\<close> a second time, with any salt and at any time, changes
  nothing; after a run exactly one account has the admin username and the admin password
  verifies against its hash; an absent account is appended; and an account whose hash
  does not verify has its hash overwritten, every other row and field staying as it was.
\<close>

theorem ensure_seed_admin_idempotent:
  "hasher_verifies e \<Longrightarrow> users_table_ok us \<Longrightarrow>
     ensure_seed_admin e salt' now' (ensure_seed_admin e salt now us) = ensure_seed_admin e salt now us
     \<and> (\<exists>u. admins e (ensure_seed_admin e salt now us) = [u]
              \<and> check_password e u (DEFAULT_ADMIN_PASSWORD e))
     \<and> (find (\<lambda>u. username u = DEFAULT_ADMIN_USERNAME e) us = None \<longrightarrow>
          ensure_seed_admin e salt now us =
            us @ [\<lparr>id' = next_rowid (map id' us), username = DEFAULT_ADMIN_USERNAME e,
                   password_hash = generate_password_hash e salt (DEFAULT_ADMIN_PASSWORD e),
                   created_at = now\<rparr>])
     \<and> (\<forall>u. find (\<lambda>u. username u = DEFAULT_ADMIN_USERNAME e) us = Some u
              \<and> \<not> check_password e u (DEFAULT_ADMIN_PASSWORD e) \<longrightarrow>
          ensure_seed_admin e salt now us =
            map (\<lambda>x. if x = u
                      then u\<lparr>password_hash := generate_password_hash e salt (DEFAULT_ADMIN_PASSWORD e)\<rparr>
                      else x) us)"
proof -
  assume hv: "hasher_verifies e" and ok: "users_table_ok us"
  let ?P = "\<lambda>u. username u = DEFAULT_ADMIN_USERNAME e"
  let ?pw = "DEFAULT_ADMIN_PASSWORD e"
  let ?h = "generate_password_hash e salt ?pw"
  have chk: "check_password e (set_password e salt ?pw x) ?pw" for x
    using hv by (simp add: hasher_verifies_def check_password_def set_password_def)
  have dn: "distinct (map username us)" and di: "distinct (map id' us)"
    using ok by (simp_all add: users_table_ok_def)
  show ?thesis
  proof (cases "find ?P us")
    case None
    let ?new = "\<lparr>id' = next_rowid (map id' us), username = DEFAULT_ADMIN_USERNAME e,
                   password_hash = ?h, created_at = now\<rparr>"
    have r: "ensure_seed_admin e salt now us = us @ [?new]"
      using None by (simp add: ensure_seed_admin_def set_password_def)
    have f: "find ?P (us @ [?new]) = Some ?new"
      using None by (simp add: find_snoc)
    have c: "check_password e ?new ?pw"
      using hv by (simp add: hasher_verifies_def check_password_def)
    have again: "ensure_seed_admin e salt' now' (us @ [?new]) = us @ [?new]"
      using f c by (simp add: ensure_seed_admin_def)
    have one: "admins e (us @ [?new]) = [?new]"
      using find_None_filter [OF None] by (simp add: admins_def)
    show ?thesis
      unfolding r using again one c None by simp
  next
    case (Some u)
    have mem: "u \<in> set us" and name: "username u = DEFAULT_ADMIN_USERNAME e"
      using find_Some_mem [OF Some] by simp_all
    have one: "filter ?P us = [u]"
      using find_Some_filter_unique [OF dn Some] .
    show ?thesis
    proof (cases "check_password e u ?pw")
      case True
      have r: "ensure_seed_admin e s t us = us" for s t
        using Some True by (simp add: ensure_seed_admin_def)
      show ?thesis
        using Some True one by (simp add: r admins_def)
    next
      case False
      let ?f = "\<lambda>x. if id' x = id' u then set_password e salt ?pw x else x"
      have r: "ensure_seed_admin e salt now us = map ?f us"
        using Some False by (simp add: ensure_seed_admin_def)
      have same: "?P (?f x) = ?P x" for x
        by (simp add: set_password_def)
      have f: "find ?P (map ?f us) = Some (set_password e salt ?pw u)"
        using find_map_same [of ?P ?f us, OF same] Some by simp
      have again: "ensure_seed_admin e salt' now' (map ?f us) = map ?f us"
        using f chk [of u] by (simp add: ensure_seed_admin_def)
      have adm: "admins e (map ?f us) = [set_password e salt ?pw u]"
        using filter_map_same [of ?P ?f us, OF same] one by (simp add: admins_def)
      have shape: "map ?f us = map (\<lambda>x. if x = u then u\<lparr>password_hash := ?h\<rparr> else x) us"
        using map_by_key [OF di mem, of "set_password e salt ?pw"] by (simp add: set_password_def)
      have c1: "ensure_seed_admin e salt' now' (ensure_seed_admin e salt now us) = ensure_seed_admin e salt now us"
        unfolding r by (rule again)
      have c2: "\<exists>u. admins e (ensure_seed_admin e salt now us) = [u] \<and> check_password e u ?pw"
        unfolding r using adm chk [of u] by blast
      have c3: "find ?P us = None \<longrightarrow> ensure_seed_admin e salt now us =
            us @ [\<lparr>id' = next_rowid (map id' us), username = DEFAULT_ADMIN_USERNAME e,
                   password_hash = ?h, created_at = now\<rparr>]"
        using Some by simp
      have c4: "\<forall>u. find ?P us = Some u \<and> \<not> check_password e u ?pw \<longrightarrow>
          ensure_seed_admin e salt now us = map (\<lambda>x. if x = u then u\<lparr>password_hash := ?h\<rparr> else x) us"
        unfolding r using Some shape by simp
      show ?thesis by (intro conjI) (fact c1 c2 c3 c4)+
    qed
  qed
qed


theorem ensure_seed_admin_idempotent_witness:
  "hasher_verifies toy_env \<and> users_table_ok [guest]
   \<and> ensure_seed_admin toy_env ''zzzz'' 9 (ensure_seed_admin toy_env ''abcd'' 7 [guest])
       = ensure_seed_admin toy_env ''abcd'' 7 [guest]
   \<and> ensure_seed_admin toy_env ''abcd'' 7 [guest]
       = [guest, \<lparr>id' = 3, username = ''i221693@nu.edu.pk'', password_hash = ''abcd123456@a'',
                   created_at = 7\<rparr>]
   \<and> users_table_ok [admin\<lparr>password_hash := ''saltchanged''\<rparr>, guest]
   \<and> ensure_seed_admin toy_env ''abcd'' 7 [admin\<lparr>password_hash := ''saltchanged''\<rparr>, guest]
       = [admin\<lparr>password_hash := ''abcd123456@a''\<rparr>, guest]"
proof -
  have hv: "hasher_verifies toy_env"
    by (simp add: hasher_verifies_def toy_env_def)
  have ok1: "users_table_ok [guest]"
    by (simp add: users_table_ok_def)
  have ok2: "users_table_ok [admin\<lparr>password_hash := ''saltchanged''\<rparr>, guest]"
    by (simp add: users_table_ok_def admin_def guest_def)
  have absent: "find (\<lambda>u. username u = DEFAULT_ADMIN_USERNAME toy_env) [guest] = None"
    by (simp add: toy_env_def guest_def)
  have stale: "find (\<lambda>u. username u = DEFAULT_ADMIN_USERNAME toy_env)
                 [admin\<lparr>password_hash := ''saltchanged''\<rparr>, guest]
               = Some (admin\<lparr>password_hash := ''saltchanged''\<rparr>)
       \<and> \<not> check_password toy_env (admin\<lparr>password_hash := ''saltchanged''\<rparr>) (DEFAULT_ADMIN_PASSWORD toy_env)"
    by (simp add: toy_env_def admin_def check_password_def)
  have new: "\<lparr>id' = next_rowid (map id' [guest]), username = DEFAULT_ADMIN_USERNAME toy_env,
       password_hash = generate_password_hash toy_env ''abcd'' (DEFAULT_ADMIN_PASSWORD toy_env),
       created_at = 7\<rparr>
     = \<lparr>id' = 3, username = ''i221693@nu.edu.pk'', password_hash = ''abcd123456@a'', created_at = 7\<rparr>"
    by (simp add: toy_env_def guest_def next_rowid_def)
  have upd: "map (\<lambda>x. if x = admin\<lparr>password_hash := ''saltchanged''\<rparr>
                then (admin\<lparr>password_hash := ''saltchanged''\<rparr>)
                       \<lparr>password_hash := generate_password_hash toy_env ''abcd'' (DEFAULT_ADMIN_PASSWORD toy_env)\<rparr>
                else x) [admin\<lparr>password_hash := ''saltchanged''\<rparr>, guest]
     = [admin\<lparr>password_hash := ''abcd123456@a''\<rparr>, guest]"
    by (simp add: toy_env_def admin_def guest_def)
  note t1 = ensure_seed_admin_idempotent [OF hv ok1, of "''zzzz''" 9 "''abcd''" 7]
  note t2 = ensure_seed_admin_idempotent [OF hv ok2, of "''zzzz''" 9 "''abcd''" 7]
  have i1: "ensure_seed_admin toy_env ''zzzz'' 9 (ensure_seed_admin toy_env ''abcd'' 7 [guest])
       = ensure_seed_admin toy_env ''abcd'' 7 [guest]"
    by (rule t1 [THEN conjunct1])
  have r1: "ensure_seed_admin toy_env ''abcd'' 7 [guest]
       = [guest, \<lparr>id' = 3, username = ''i221693@nu.edu.pk'', password_hash = ''abcd123456@a'',
                   created_at = 7\<rparr>]"
    using t1 [THEN conjunct2, THEN conjunct2, THEN conjunct1, THEN mp, OF absent]
    unfolding new by simp
  have r2: "ensure_seed_admin toy_env ''abcd'' 7 [admin\<lparr>password_hash := ''saltchanged''\<rparr>, guest]
       = [admin\<lparr>password_hash := ''abcd123456@a''\<rparr>, guest]"
    using t2 [THEN conjunct2, THEN conjunct2, THEN conjunct2, THEN spec, THEN mp, OF stale]
    unfolding upd .
  show ?thesis
    by (intro conjI) (fact hv ok1 ok2 i1 r1 r2)+
qed

section \<open>Stored records are screened\<close>

lemma reject_injection_strip: "reject_injection (Some (strip v)) = reject_injection (Some v)"
  by (simp add: reject_injection_def or_empty_def strip_idem)

lemma match_plus_dollar_of_strip:
  assumes "match_plus_dollar cls v" and "strip v \<noteq> []"
  shows "match_plus_dollar cls (strip v)"
proof -
  have "list_all cls (strip v)" using assms(1) by (rule match_plus_dollar_strip)
  moreover have "last (strip v) \<noteq> CHR 0x0A"
    using strip_ends(2) [OF assms(2)] by (auto simp: isspace_def)
  ultimately show ?thesis using assms(2) by (simp add: match_plus_dollar_def)
qed

lemma name_validators_strip:
  assumes "m \<noteq> []" and "field_validate (name_validators m) (Some v)"
  shows "field_validate (name_validators m) (Some (strip v))"
proof -
  have v: "strip v \<noteq> []" "length v \<le> 100" "match_plus_dollar name_char v" "reject_injection (Some v) = Inr ()"
    using assms by (simp_all add: name_validators_iff name_structural_iff)
  have "length (strip v) \<le> 100" using length_strip [of v] v(2) by simp
  then show ?thesis
    using v assms(1) match_plus_dollar_of_strip [OF v(3) v(1)]
    by (simp add: name_validators_iff name_structural_iff strip_idem reject_injection_strip)
qed

lemma email_validators_iff:
  "field_validate (email_validators va) (Some v) \<longleftrightarrow>
     strip v \<noteq> [] \<and> va v \<and> length v \<le> 200 \<and> reject_injection (Some v) = Inr ()"
  using reject_injection_result [of "Some v"]
  by (auto simp: field_validate_def email_validators_def DataRequired_def Email_def Length_def strip_def)

lemma email_validators_strip:
  assumes "trim_stable e" and "field_validate (email_validators (validate_email e)) (Some v)"
  shows "field_validate (email_validators (validate_email e)) (Some (strip v))"
proof -
  have v: "strip v \<noteq> []" "validate_email e v" "length v \<le> 200" "reject_injection (Some v) = Inr ()"
    using assms(2) by (simp_all add: email_validators_iff)
  have "length (strip v) \<le> 200" using length_strip [of v] v(3) by simp
  moreover have "validate_email e (strip v)" using assms(1) v(2) by (simp add: trim_stable_def)
  ultimately show ?thesis
    using v by (simp add: email_validators_iff strip_idem reject_injection_strip)
qed

lemma name_validators_None: "m \<noteq> [] \<Longrightarrow> \<not> field_validate (name_validators m) None"
  by (simp add: field_validate_def name_validators_def name_structural_validators_def DataRequired_def)

lemma email_validators_None: "\<not> field_validate (email_validators va) None"
  by (simp add: field_validate_def email_validators_def DataRequired_def)

lemma validated_form_screened:
  assumes "trim_stable e" and "validate_ContactForm e f"
  shows "\<exists>fn ln em. fname_data f = Some fn \<and> lname_data f = Some ln \<and> email_data f = Some em
     \<and> field_validate fname_validators (Some (strip fn))
     \<and> field_validate lname_validators (Some (strip ln))
     \<and> field_validate (email_validators (validate_email e)) (Some (strip em))"
proof -
  have v: "field_validate fname_validators (fname_data f)" "field_validate lname_validators (lname_data f)"
    "field_validate (email_validators (validate_email e)) (email_data f)"
    using assms(2) by (simp_all add: validate_ContactForm_def)
  obtain fn where fn: "fname_data f = Some fn"
    using v(1) name_validators_None [of "''First name is required.''"]
    by (cases "fname_data f") (auto simp: fname_validators_def)
  obtain ln where ln: "lname_data f = Some ln"
    using v(2) name_validators_None [of "''Last name is required.''"]
    by (cases "lname_data f") (auto simp: lname_validators_def)
  obtain em where em: "email_data f = Some em"
    using v(3) email_validators_None by (cases "email_data f") auto
  have "field_validate fname_validators (Some (strip fn))"
    using v(1) fn name_validators_strip [of "''First name is required.''" fn]
    by (simp add: fname_validators_def)
  moreover have "field_validate lname_validators (Some (strip ln))"
    using v(2) ln name_validators_strip [of "''Last name is required.''" ln]
    by (simp add: lname_validators_def)
  moreover have "field_validate (email_validators (validate_email e)) (Some (strip em))"
    using v(3) em email_validators_strip [OF assms(1)] by simp
  ultimately show ?thesis using fn ln em by simp
qed

lemma index_view_screened:
  assumes "trim_stable e" and "list_all (screened e) (first_app a)"
  shows "list_all (screened e) (first_app (fst (index_view e a sess req)))"
proof (cases "is_submitted req \<and> validate_ContactForm e (new_ContactForm req None)")
  case True
  then obtain fn ln em where
    d: "fname_data (new_ContactForm req None) = Some fn" "lname_data (new_ContactForm req None) = Some ln"
       "email_data (new_ContactForm req None) = Some em"
    and ok: "field_validate fname_validators (Some (strip fn))"
       "field_validate lname_validators (Some (strip ln))"
       "field_validate (email_validators (validate_email e)) (Some (strip em))"
    using validated_form_screened [OF assms(1), of "new_ContactForm req None"] by blast
  show ?thesis
    using True d ok assms(2) by (simp add: index_view_def Let_def screened_def)
next
  case False
  then show ?thesis using assms(2) by (auto simp: index_view_def Let_def)
qed

lemma update_view_screened:
  assumes "trim_stable e" and "list_all (screened e) (first_app a)"
  shows "list_all (screened e) (first_app (fst (update_view e n a sess req)))"
proof (cases "get_or_404 (first_app a) n")
  case (Inl err)
  then show ?thesis using assms(2) by (cases err) (simp_all add: update_view_def)
next
  case (Inr rec)
  show ?thesis
  proof (cases "is_submitted req \<and> validate_ContactForm e (new_ContactForm req (Some rec))")
    case True
    then obtain fn ln em where
      d: "fname_data (new_ContactForm req (Some rec)) = Some fn"
         "lname_data (new_ContactForm req (Some rec)) = Some ln"
         "email_data (new_ContactForm req (Some rec)) = Some em"
      and ok: "field_validate fname_validators (Some (strip fn))"
         "field_validate lname_validators (Some (strip ln))"
         "field_validate (email_validators (validate_email e)) (Some (strip em))"
      using validated_form_screened [OF assms(1), of "new_ContactForm req (Some rec)"] by blast
    show ?thesis
      using True Inr d ok assms(2)
      by (auto simp: update_view_def Let_def screened_def list_all_iff)
  next
    case False
    then show ?thesis using Inr assms(2) by (auto simp: update_view_def Let_def)
  qed
qed

lemma delete_view_rows: "set (first_app (fst (delete_view n a sess req))) \<subseteq> set (first_app a)"
  by (auto simp: delete_view_def split: sum.splits lookup_error.splits)

lemma login_rows: "first_app (fst (login e a sess req)) = first_app a"
  by (auto simp: login_def Let_def split: option.splits)

lemma logout_rows: "first_app (fst (logout a sess req)) = first_app a"
  by (simp add: logout_def login_required_def logout_view_def)

lemma bootstrap_rows: "first_app (bootstrap_seed_admin e salt now a) = first_app a"
  by (simp add: bootstrap_seed_admin_def)

lemma login_required_screened:
  "list_all Q (first_app a) \<Longrightarrow> list_all Q (first_app (fst (view_func a sess req))) \<Longrightarrow>
   list_all Q (first_app (fst (login_required view_func a sess req)))"
  by (simp add: login_required_def)

lemma list_all_subset: "set ys \<subseteq> set xs \<Longrightarrow> list_all Q xs \<Longrightarrow> list_all Q ys"
  by (auto simp: list_all_iff)

lemma dispatch_screened:
  assumes "trim_stable e" and "list_all (screened e) (first_app a)"
  shows "list_all (screened e) (first_app (fst (dispatch_request e a sess req)))"
proof (cases "endpoint req")
  case login_ep
  then show ?thesis using assms(2) by (simp add: dispatch_request_def login_rows)
next
  case logout_ep
  then show ?thesis using assms(2) by (simp add: dispatch_request_def logout_rows)
next
  case index_ep
  then show ?thesis
    using login_required_screened [of "screened e" a "index_view e" sess req]
      assms(2) index_view_screened [OF assms, of sess req]
    by (simp add: dispatch_request_def index_def)
next
  case (delete_ep n)
  have "list_all (screened e) (first_app (fst (delete_view n a sess req)))"
    using list_all_subset [OF delete_view_rows assms(2)] .
  then show ?thesis
    using delete_ep assms(2) login_required_screened [of "screened e" a "delete_view n" sess req]
    by (simp add: dispatch_request_def delete_def)
next
  case (update_ep n)
  then show ?thesis
    using login_required_screened [of "screened e" a "update_view e n" sess req]
      assms(2) update_view_screened [OF assms, of n sess req]
    by (simp add: dispatch_request_def update_def)
qed

lemma run_screened:
  "trim_stable e \<Longrightarrow> list_all (screened e) (first_app a) \<Longrightarrow>
   list_all (screened e) (first_app (run e evs a))"
proof (induction evs arbitrary: a)
  case Nil
  then show ?case by simp
next
  case (Cons ev evs)
  have "list_all (screened e) (first_app (bootstrap_seed_admin e (ev_salt ev) (ev_now ev) a))"
    using Cons.prems(2) by (simp add: bootstrap_rows)
  then have "list_all (screened e)
      (first_app (fst (handle_request e (ev_salt ev) (ev_now ev) a (ev_session ev) (ev_request ev))))"
    unfolding handle_request_def by (rule dispatch_screened [OF Cons.prems(1)])
  then show ?case using Cons.IH [OF Cons.prems(1)] by simp
qed

lemmas eval_run = handle_request_def dispatch_request_def bootstrap_seed_admin_def ensure_seed_admin_def
  initial_app_def set_password_def next_rowid_def create_jane_def

text \<open>
  Claim C4.  Let the address check accept the trimmed form of what it accepts.  Then in
  every state reached from the empty database by any sequence of requests, each from a
  caller with any session, every stored record has three fields that pass the validators
  of their form fields (the structural ones and \<open>reject_injection\<close>).  The create
  operation (\<open>index\<close>) and \<open>update\<close> keep this true of the table; \<open>login\<close>, \<open>logout\<close> and the
  admin bootstrap leave the table as it is, and \<open>delete\<close> leaves only rows that were
  there, so no other operation writes a field of a record.
\<close>

theorem records_screened:
  "trim_stable e \<Longrightarrow>
     list_all (screened e) (first_app (run e evs initial_app))
     \<and> (list_all (screened e) (first_app a) \<longrightarrow>
          list_all (screened e) (first_app (fst (index e a sess req)))
          \<and> list_all (screened e) (first_app (fst (update e n a sess req))))
     \<and> first_app (fst (login e a sess req)) = first_app a
     \<and> first_app (fst (logout a sess req)) = first_app a
     \<and> set (first_app (fst (delete n a sess req))) \<subseteq> set (first_app a)
     \<and> first_app (bootstrap_seed_admin e salt now a) = first_app a"
proof -
  assume ts: "trim_stable e"
  have 1: "list_all (screened e) (first_app (run e evs initial_app))"
    using run_screened [OF ts, of initial_app evs] by (simp add: initial_app_def)
  have 2: "list_all (screened e) (first_app (fst (index e a sess req)))
          \<and> list_all (screened e) (first_app (fst (update e n a sess req)))"
    if inv: "list_all (screened e) (first_app a)"
    using login_required_screened [of "screened e" a "index_view e" sess req]
      login_required_screened [of "screened e" a "update_view e n" sess req]
      inv index_view_screened [OF ts inv, of sess req] update_view_screened [OF ts inv, of n sess req]
    by (simp add: index_def update_def)
  have 3: "set (first_app (fst (delete n a sess req))) \<subseteq> set (first_app a)"
    using delete_view_rows [of n a sess req] by (simp add: delete_def login_required_def)
  show ?thesis
    using 1 2 3 by (simp add: login_rows logout_rows bootstrap_rows)
qed


theorem records_screened_witness:
  "trim_stable toy_env
   \<and> first_app (run toy_env [create_jane] initial_app) = [jane]
   \<and> screened toy_env jane"
proof -
  have ts: "trim_stable toy_env"
    by (simp add: trim_stable_def toy_env_def strip_idem)
  have r: "first_app (run toy_env [create_jane] initial_app) = [jane]"
    by (simp add: eval_run eval_views eval_forms eval_inputs Let_def)
  have "list_all (screened toy_env) (first_app (run toy_env [create_jane] initial_app))"
    by (rule records_screened [OF ts, THEN conjunct1])
  then have "screened toy_env jane" unfolding r by simp
  then show ?thesis using ts r by blast
qed

end
